theory Spec2Isabelle
  imports Complex_Main "HOL-Library.AList" "HOL-Library.Sublist"
begin

section \<open>Python values met by the script\<close>

text \<open>
  A Python \<open>str\<close> is a sequence of Unicode code points, and \<open>len\<close> counts code points.
  The keywords of the scorer are Chinese, so a string is a list of code points, not of bytes.
\<close>

type_synonym ustring = "nat list"

definition ascii :: "string \<Rightarrow> ustring" where
  "ascii s = map of_char s"

text \<open>
  A cell of the spreadsheet as pandas hands it over. \<open>PyNaN\<close> is the float that stands for
  an empty cell. A float other than that is carried by the text \<open>str\<close> gives for it, since
  nothing but this text is ever computed from it. \<open>PyObj\<close> is a value of any other class
  (a Timestamp, a numpy scalar), again carried by its \<open>str\<close>; the json module refuses it.
\<close>

datatype cell =
    PyStr ustring
  | PyInt int
  | PyBool bool
  | PyNaN
  | PyFloat ustring
  | PyObj ustring

datatype error = IndexError | TypeError

function str_nat :: "nat \<Rightarrow> ustring" where
  "str_nat n = (if n < 10 then [48 + n] else str_nat (n div 10) @ [48 + n mod 10])"
  by pat_completeness auto
termination
  by (relation "measure (\<lambda>n. n)") auto

declare str_nat.simps [simp del]

definition str_int :: "int \<Rightarrow> ustring" where
  "str_int i = (if i < 0 then 45 # str_nat (nat (- i)) else str_nat (nat i))"

definition nan :: ustring where
  "nan = ascii ''nan''"

fun str :: "cell \<Rightarrow> ustring" where
  "str (PyStr s) = s"
| "str (PyInt i) = str_int i"
| "str (PyBool b) = (if b then ascii ''True'' else ascii ''False'')"
| "str PyNaN = nan"
| "str (PyFloat r) = r"
| "str (PyObj r) = r"

text \<open>
  \<open>str.lower\<close>. The case table of Unicode is reproduced for Basic Latin, the Latin-1
  Supplement and the fullwidth Latin letters; a code point outside these blocks is left as
  it is. No entry of the full table has a CJK ideograph on either side.
\<close>

definition lower_cp :: "nat \<Rightarrow> nat" where
  "lower_cp c =
     (if (65 \<le> c \<and> c \<le> 90) \<or> (192 \<le> c \<and> c \<le> 222 \<and> c \<noteq> 215) \<or> (65313 \<le> c \<and> c \<le> 65338)
      then c + 32 else c)"

definition lower :: "ustring \<Rightarrow> ustring" where
  "lower s = map lower_cp s"

text \<open>\<open>sep.join(parts)\<close>\<close>

fun join :: "ustring \<Rightarrow> ustring list \<Rightarrow> ustring" where
  "join sep [] = []"
| "join sep [x] = x"
| "join sep (x # y # ys) = x @ sep @ join sep (y # ys)"

text \<open>\<open>word in text\<close> on strings: \<open>word\<close> occurs in \<open>text\<close> as a contiguous run.\<close>

fun contains :: "ustring \<Rightarrow> ustring \<Rightarrow> bool" where
  "contains word [] = (word = [])"
| "contains word (c # cs) = (prefix word (c # cs) \<or> contains word cs)"


section \<open>A row of the table\<close>

text \<open>
  \<open>iterrows\<close> yields each row as a Series: the column labels and the cells of the row.
  \<open>iloc\<close> reads by position and raises IndexError outside the row.
\<close>

record series =
  index :: "cell list"
  vals :: "cell list"

definition iloc :: "series \<Rightarrow> nat \<Rightarrow> error + cell" where
  "iloc row i = (if i < length (vals row) then Inr (vals row ! i) else Inl IndexError)"

text \<open>
  \<open>Series.to_dict\<close>: the dict built from the (label, cell) pairs in order. A label met
  again keeps its place and takes the later cell.
\<close>

definition to_dict :: "series \<Rightarrow> (cell \<times> cell) list" where
  "to_dict row = fold (\<lambda>(k, v) d. AList.update k v d) (zip (index row) (vals row)) []"


section \<open>assess_feedback_quality\<close>

definition suggestion_words :: "ustring list" where
  "suggestion_words =
     [[24314, 35758], [24076, 26395], [24212, 35813],
      [21487, 20197], [25913, 36827], [20248, 21270]]"

text \<open>\<open>[str(row.iloc[i]) for i in positions]\<close>, stopping at the first IndexError.\<close>

fun text_fields_of :: "series \<Rightarrow> nat list \<Rightarrow> error + ustring list" where
  "text_fields_of row [] = Inr []"
| "text_fields_of row (i # rest) =
     (case iloc row i of
        Inl e \<Rightarrow> Inl e
      | Inr c \<Rightarrow>
          (case text_fields_of row rest of
             Inl e \<Rightarrow> Inl e
           | Inr ts \<Rightarrow> Inr (str c # ts)))"

text \<open>The loop over \<open>text_fields\<close>, the score as the accumulator.\<close>

fun length_loop :: "ustring list \<Rightarrow> int \<Rightarrow> int" where
  "length_loop [] score = score"
| "length_loop (text # rest) score =
     length_loop rest (if length text > 10 \<and> text \<noteq> nan then score + 1 else score)"

definition assess_feedback_quality :: "series \<Rightarrow> error + int" where
  "assess_feedback_quality row =
     (case text_fields_of row [4 ..< 8] of
        Inl e \<Rightarrow> Inl e
      | Inr text_fields \<Rightarrow>
          (let score = length_loop text_fields (0 + 1);
               full_text = lower (join [32] text_fields);
               score = (if list_ex (\<lambda>word. contains word full_text) suggestion_words
                        then score + 1 else score)
           in Inr (min score 5)))"

text \<open>
  The score as the specification words it: 1, plus the number of the four texts longer
  than 10 that are not the sentinel, plus 1 if some keyword occurs in the lowercased
  space-joined text, capped at 5.
\<close>

definition reference_score :: "cell list \<Rightarrow> int" where
  "reference_score cells =
     (let texts = map (\<lambda>i. str (cells ! i)) [4, 5, 6, 7];
          long_texts = filter (\<lambda>t. 10 < length t \<and> t \<noteq> nan) texts;
          bonus = (if \<exists>k \<in> set suggestion_words. contains k (lower (join [32] texts))
                   then 1 else 0)
      in min (1 + int (length long_texts) + bonus) 5)"

text \<open>The scorer with the test against the sentinel left out of the loop.\<close>

fun length_loop_no_sentinel :: "ustring list \<Rightarrow> int \<Rightarrow> int" where
  "length_loop_no_sentinel [] score = score"
| "length_loop_no_sentinel (text # rest) score =
     length_loop_no_sentinel rest (if length text > 10 then score + 1 else score)"

definition assess_feedback_quality_no_sentinel :: "series \<Rightarrow> error + int" where
  "assess_feedback_quality_no_sentinel row =
     (case text_fields_of row [4 ..< 8] of
        Inl e \<Rightarrow> Inl e
      | Inr text_fields \<Rightarrow>
          (let score = length_loop_no_sentinel text_fields (0 + 1);
               full_text = lower (join [32] text_fields);
               score = (if list_ex (\<lambda>word. contains word full_text) suggestion_words
                        then score + 1 else score)
           in Inr (min score 5)))"


section \<open>process_questionnaire_responses\<close>

text \<open>
  The table is what \<open>read_excel\<close> returned: the column labels and the rows in file order.
  The model starts there, and takes the output file to be writable.
\<close>

record dataframe =
  columns :: "cell list"
  rows :: "cell list list"

text \<open>A \<open>datetime\<close>, by the two texts the script takes of it.\<close>

record datetime =
  isoformat :: ustring
  strftime_Ymd :: ustring

record payment_info =
  id_uuid :: ustring
  feedback_code :: cell
  alipay_account :: cell
  amount :: real
  quality_score :: int
  created_at :: ustring
  payment_status :: ustring
  feedback_data :: "(cell \<times> cell) list"

text \<open>
  What the script reads from and leaves in its environment: the values \<open>uuid.uuid4()\<close>
  and \<open>datetime.now()\<close> give at their successive calls, how many calls were made, the
  files written (name and the list dumped) and the lines printed.
\<close>

record world =
  uuid4_values :: "nat \<Rightarrow> ustring"
  clock :: "nat \<Rightarrow> datetime"
  uuid4_calls :: nat
  now_calls :: nat
  files :: "(ustring \<times> payment_info list) list"
  stdout :: "ustring list"

definition uuid4 :: "world \<Rightarrow> ustring \<times> world" where
  "uuid4 w = (uuid4_values w (uuid4_calls w), w\<lparr>uuid4_calls := Suc (uuid4_calls w)\<rparr>)"

definition now :: "world \<Rightarrow> datetime \<times> world" where
  "now w = (clock w (now_calls w), w\<lparr>now_calls := Suc (now_calls w)\<rparr>)"

text \<open>The dict built for a qualifying row.\<close>

definition make_payment_info ::
    "ustring \<Rightarrow> cell \<Rightarrow> cell \<Rightarrow> int \<Rightarrow> datetime \<Rightarrow> series \<Rightarrow> payment_info" where
  "make_payment_info u code account score t row =
     \<lparr>id_uuid = u,
      feedback_code = code,
      alipay_account = account,
      amount = 3.00,
      quality_score = score,
      created_at = isoformat t,
      payment_status = ascii ''pending'',
      feedback_data = to_dict row\<rparr>"

text \<open>The \<open>for index, row in df.iterrows()\<close> loop; an exception in a row ends the run.\<close>

fun iterrows_loop ::
    "cell list \<Rightarrow> cell list list \<Rightarrow> payment_info list \<Rightarrow> world
       \<Rightarrow> error + (payment_info list \<times> world)" where
  "iterrows_loop cols [] payment_list w = Inr (payment_list, w)"
| "iterrows_loop cols (r # rest) payment_list w =
     (let row = \<lparr>index = cols, vals = r\<rparr> in
      case iloc row 1 of
        Inl e \<Rightarrow> Inl e
      | Inr code \<Rightarrow>
     (case iloc row 2 of
        Inl e \<Rightarrow> Inl e
      | Inr account \<Rightarrow>
     (case assess_feedback_quality row of
        Inl e \<Rightarrow> Inl e
      | Inr score \<Rightarrow>
          if score \<ge> 3 then
            (let (u, w1) = uuid4 w;
                 (t, w2) = now w1
             in iterrows_loop cols rest
                  (payment_list @ [make_payment_info u code account score t row]) w2)
          else iterrows_loop cols rest payment_list w)))"

text \<open>
  \<open>json.dump\<close> raises TypeError on a value or a dict key of a class it does not know;
  strings, ints, bools and floats (NaN too, by default) go through.
\<close>

fun json_serializable :: "cell \<Rightarrow> bool" where
  "json_serializable (PyObj r) = False"
| "json_serializable c = True"

definition dumpable :: "payment_info \<Rightarrow> bool" where
  "dumpable p =
     (json_serializable (feedback_code p) \<and> json_serializable (alipay_account p) \<and>
      list_all (\<lambda>(k, v). json_serializable k \<and> json_serializable v) (feedback_data p))"

definition report_prefix :: ustring where
  "report_prefix =
     [22788, 29702, 23436, 25104, 65281, 26377, 25928, 21453, 39304, 25968, 37327, 58, 32]"

definition process_questionnaire_responses ::
    "dataframe \<Rightarrow> world \<Rightarrow> error + (payment_info list \<times> world)" where
  "process_questionnaire_responses df w =
     (case iterrows_loop (columns df) (rows df) [] w of
        Inl e \<Rightarrow> Inl e
      | Inr (payment_list, w1) \<Rightarrow>
          (let (t, w2) = now w1;
               name = ascii ''payment_list_'' @ strftime_Ymd t @ ascii ''.json''
           in if list_all dumpable payment_list then
                Inr (payment_list,
                     w2\<lparr>files := AList.update name payment_list (files w2),
                        stdout := stdout w2 @
                          [report_prefix @ str_int (int (length payment_list))]\<rparr>)
              else Inl TypeError))"

text \<open>The rows that earn a payment, and the records the run builds for them.\<close>

definition qualifies :: "cell list \<Rightarrow> cell list \<Rightarrow> bool" where
  "qualifies cols r =
     (case assess_feedback_quality \<lparr>index = cols, vals = r\<rparr> of
        Inl e \<Rightarrow> False
      | Inr score \<Rightarrow> score \<ge> 3)"

text \<open>
  The record the run builds for the \<open>i\<close>-th qualifying row \<open>r\<close>, counting from 0, when it
  starts in the world \<open>w\<close>; and the list of these records for a whole table.
\<close>

definition payment_for :: "world \<Rightarrow> cell list \<Rightarrow> nat \<times> cell list \<Rightarrow> payment_info" where
  "payment_for w cols =
     (\<lambda>(i, r). make_payment_info (uuid4_values w (uuid4_calls w + i)) (r ! 1) (r ! 2)
        (reference_score r) (clock w (now_calls w + i)) \<lparr>index = cols, vals = r\<rparr>)"

definition expected_payment_list :: "dataframe \<Rightarrow> world \<Rightarrow> payment_info list" where
  "expected_payment_list df w =
     map (payment_for w (columns df))
       (enumerate 0 (filter (qualifies (columns df)) (rows df)))"

text \<open>The block of CJK unified ideographs, where every character of the keywords lies.\<close>

definition cjk :: "nat \<Rightarrow> bool" where
  "cjk c = (19968 \<le> c \<and> c \<le> 40959)"


section \<open>Sample rows\<close>

definition sample_columns :: "cell list" where
  "sample_columns = map (\<lambda>s. PyStr (ascii s))
     [''no'', ''code'', ''account'', ''time'', ''q1'', ''q2'', ''q3'', ''q4'']"

definition sample_blank_row :: series where
  "sample_blank_row = \<lparr>index = sample_columns,
     vals = [PyInt 1, PyStr (ascii ''FB-0001''), PyStr (ascii ''a@b.cn''), PyNaN,
             PyNaN, PyStr [], PyNaN, PyNaN]\<rparr>"

definition sample_keyword_row :: series where
  "sample_keyword_row = \<lparr>index = sample_columns,
     vals = [PyInt 2, PyStr (ascii ''FB-0002''), PyStr (ascii ''c@d.cn''), PyNaN,
             PyStr [24314, 35758], PyNaN, PyNaN, PyNaN]\<rparr>"

definition sample_good_row :: series where
  "sample_good_row = \<lparr>index = sample_columns,
     vals = [PyInt 3, PyStr (ascii ''FB-0003''), PyStr (ascii ''e@f.cn''), PyNaN,
             PyStr (ascii ''The upload page is slow''),
             PyStr ([24314, 35758] @ ascii '' add batch export''),
             PyNaN,
             PyStr (ascii ''Works well on mobile'')]\<rparr>"

definition sample_long_row :: series where
  "sample_long_row = \<lparr>index = sample_columns,
     vals = [PyInt 4, PyStr (ascii ''FB-0004''), PyInt 13800000000, PyNaN,
             PyStr (ascii ''Export to Excel fails''),
             PyStr (ascii ''Login times out often''),
             PyNaN,
             PyNaN]\<rparr>"

definition sample_df :: dataframe where
  "sample_df = \<lparr>columns = sample_columns,
     rows = [vals sample_blank_row, vals sample_good_row,
             vals sample_keyword_row, vals sample_long_row]\<rparr>"

definition sample_world :: world where
  "sample_world = \<lparr>uuid4_values = (\<lambda>n. ascii ''uuid-'' @ [48 + n]),
     clock = (\<lambda>n. \<lparr>isoformat = ascii ''2025-03-01T09:30:0'' @ [48 + n],
                     strftime_Ymd = ascii ''20250301''\<rparr>),
     uuid4_calls = 0, now_calls = 0, files = [], stdout = []\<rparr>"



section \<open>The JSON file\<close>

text \<open>
  Modelled from the spec: the json module is not code of this repository. The script
  calls \<open>json.dump(payment_list, f, ensure_ascii=False, indent=2)\<close>, the specification has
  the list written as a pretty-printed JSON array with non-ASCII characters preserved, and
  it speaks of parsing that file again. The encoder and the decoder of this section are
  written after the documentation of the json module: its conversion tables, the layout
  it gives with an indent, and the grammar its decoder accepts. A text is a list of code
  points; the file holds its UTF-8 encoding.
\<close>

text \<open>
  Modelled from the spec: a Python value as the json module sees it. A float is carried by
  its \<open>repr\<close> (\<open>nan\<close>, \<open>inf\<close> and \<open>-inf\<close> for the three special floats), and a float
  read from a file by the text of its token, which is its \<open>repr\<close> whenever json.dump wrote
  the token. \<open>VObj\<close> is a value of a class the encoder does not know.
\<close>

datatype pyval =
    VNone
  | VBool bool
  | VInt int
  | VFloat ustring
  | VStr ustring
  | VObj ustring
  | VList "pyval list"
  | VDict "(pyval \<times> pyval) list"

subsection \<open>Encoding\<close>

definition hex_digit :: "nat \<Rightarrow> nat" where
  "hex_digit d = (if d < 10 then 48 + d else 87 + d)"

text \<open>
  Modelled from the spec: the encoder of strings. With \<open>ensure_ascii=False\<close> only the
  quote, the backslash and the control characters are escaped; every other code point is
  written as it is.
\<close>

definition escape_char :: "nat \<Rightarrow> ustring" where
  "escape_char c =
     (if c = 34 then [92, 34]
      else if c = 92 then [92, 92]
      else if c = 10 then [92, 110]
      else if c = 13 then [92, 114]
      else if c = 9 then [92, 116]
      else if c = 8 then [92, 98]
      else if c = 12 then [92, 102]
      else if c < 32 then [92, 117, 48, 48, hex_digit (c div 16), hex_digit (c mod 16)]
      else [c])"

definition encode_basestring :: "ustring \<Rightarrow> ustring" where
  "encode_basestring s = 34 # concat (map escape_char s) @ [34]"

text \<open>Modelled from the spec: the encoder of floats, with its names for the special ones.\<close>

definition floatstr :: "ustring \<Rightarrow> ustring" where
  "floatstr r =
     (if r = ascii ''nan'' then ascii ''NaN''
      else if r = ascii ''inf'' then ascii ''Infinity''
      else if r = ascii ''-inf'' then ascii ''-Infinity''
      else r)"

text \<open>
  Modelled from the spec: the keys of a dict are coerced to strings, as every key of a
  JSON object is a string; a key that is not a string, a number, a bool or None raises
  TypeError.
\<close>

fun key_ok :: "pyval \<Rightarrow> bool" where
  "key_ok (VStr s) = True"
| "key_ok (VFloat r) = True"
| "key_ok (VBool b) = True"
| "key_ok VNone = True"
| "key_ok (VInt i) = True"
| "key_ok v = False"

fun key_text :: "pyval \<Rightarrow> ustring" where
  "key_text (VStr s) = s"
| "key_text (VFloat r) = floatstr r"
| "key_text (VBool b) = (if b then ascii ''true'' else ascii ''false'')"
| "key_text VNone = ascii ''null''"
| "key_text (VInt i) = str_int i"
| "key_text v = []"

text \<open>Modelled from the spec: the values json.dump writes without raising TypeError.\<close>

fun encodable :: "pyval \<Rightarrow> bool" where
  "encodable (VObj r) = False"
| "encodable (VList vs) = list_all encodable vs"
| "encodable (VDict kvs) = list_all (\<lambda>kv. key_ok (fst kv) \<and> encodable (snd kv)) kvs"
| "encodable VNone = True"
| "encodable (VBool b) = True"
| "encodable (VInt i) = True"
| "encodable (VFloat r) = True"
| "encodable (VStr s) = True"

text \<open>
  Modelled from the spec: the text json.dump writes with \<open>indent=2\<close>. The items of a
  list and the members of a dict stand on lines of their own, two spaces deeper than the
  bracket that opens them, separated by commas; a key and its value are separated by a
  colon and a space; an empty list or dict is written without a line break.
\<close>

definition newline_indent :: "nat \<Rightarrow> ustring" where
  "newline_indent level = 10 # replicate (2 * level) 32"

fun dumps_at :: "nat \<Rightarrow> pyval \<Rightarrow> ustring" where
  "dumps_at level VNone = ascii ''null''"
| "dumps_at level (VBool b) = (if b then ascii ''true'' else ascii ''false'')"
| "dumps_at level (VInt i) = str_int i"
| "dumps_at level (VFloat r) = floatstr r"
| "dumps_at level (VStr s) = encode_basestring s"
| "dumps_at level (VObj r) = []"
| "dumps_at level (VList vs) =
     (if vs = [] then ascii ''[]''
      else [91] @ newline_indent (Suc level) @
           join (44 # newline_indent (Suc level)) (map (dumps_at (Suc level)) vs) @
           newline_indent level @ [93])"
| "dumps_at level (VDict kvs) =
     (if kvs = [] then ascii ''{}''
      else [123] @ newline_indent (Suc level) @
           join (44 # newline_indent (Suc level))
             (map (\<lambda>kv. encode_basestring (key_text (fst kv)) @ [58, 32] @
                          dumps_at (Suc level) (snd kv)) kvs) @
           newline_indent level @ [125])"

text \<open>Modelled from the spec: \<open>json.dumps(v, ensure_ascii=False, indent=2)\<close>.\<close>

definition json_dumps :: "pyval \<Rightarrow> error + ustring" where
  "json_dumps v = (if encodable v then Inr (dumps_at 0 v) else Inl TypeError)"

subsection \<open>Decoding\<close>

text \<open>
  Modelled from the spec: the decoder of the json module, which reads the grammar of JSON
  and, beyond it, the three names of the special floats. White space is a space, a tab,
  a line feed or a carriage return.
\<close>

definition is_ws :: "nat \<Rightarrow> bool" where
  "is_ws c = (c = 32 \<or> c = 9 \<or> c = 10 \<or> c = 13)"

definition skip_ws :: "ustring \<Rightarrow> ustring" where
  "skip_ws s = dropWhile is_ws s"

definition is_digit :: "nat \<Rightarrow> bool" where
  "is_digit c = (48 \<le> c \<and> c \<le> 57)"

definition hex_value :: "nat \<Rightarrow> nat option" where
  "hex_value c =
     (if 48 \<le> c \<and> c \<le> 57 then Some (c - 48)
      else if 97 \<le> c \<and> c \<le> 102 then Some (c - 87)
      else if 65 \<le> c \<and> c \<le> 70 then Some (c - 55)
      else None)"

text \<open>Modelled from the spec: the four hexadecimal digits of a u-escape.\<close>

definition decode_uXXXX :: "ustring \<Rightarrow> nat option" where
  "decode_uXXXX s =
     (case s of
        a # b # c # d # rest \<Rightarrow>
          (case (hex_value a, hex_value b, hex_value c, hex_value d) of
             (Some x, Some y, Some z, Some t) \<Rightarrow> Some (((x * 16 + y) * 16 + z) * 16 + t)
           | _ \<Rightarrow> None)
      | _ \<Rightarrow> None)"

definition unescape :: "nat \<Rightarrow> nat option" where
  "unescape e =
     (if e = 34 then Some 34
      else if e = 92 then Some 92
      else if e = 47 then Some 47
      else if e = 98 then Some 8
      else if e = 102 then Some 12
      else if e = 110 then Some 10
      else if e = 114 then Some 13
      else if e = 116 then Some 9
      else None)"

text \<open>
  Modelled from the spec: the body of a string, from behind the opening quote to the
  closing one. A control character that is not escaped is refused; the u-escape of a high
  surrogate followed by that of a low one gives one code point.
\<close>

fun scan_string :: "ustring \<Rightarrow> (ustring \<times> ustring) option" where
  "scan_string [] = None"
| "scan_string (c # cs) =
     (if c = 34 then Some ([], cs)
      else if c = 92 then
        (case cs of
           [] \<Rightarrow> None
         | e # r \<Rightarrow>
             if e = 117 then
               (case decode_uXXXX r of
                  None \<Rightarrow> None
                | Some u \<Rightarrow>
                    (case (if 55296 \<le> u \<and> u \<le> 56319 \<and> prefix [92, 117] (drop 4 r)
                           then decode_uXXXX (drop 6 r) else None) of
                       Some u2 \<Rightarrow>
                         if 56320 \<le> u2 \<and> u2 \<le> 57343 then
                           map_option (\<lambda>(s, t). ((65536 + (u - 55296) * 1024 + (u2 - 56320)) # s, t))
                             (scan_string (drop 10 r))
                         else map_option (\<lambda>(s, t). (u # s, t)) (scan_string (drop 4 r))
                     | None \<Rightarrow> map_option (\<lambda>(s, t). (u # s, t)) (scan_string (drop 4 r))))
             else
               (case unescape e of
                  None \<Rightarrow> None
                | Some x \<Rightarrow> map_option (\<lambda>(s, t). (x # s, t)) (scan_string r)))
      else if c < 32 then None
      else map_option (\<lambda>(s, t). (c # s, t)) (scan_string cs))"

text \<open>
  Modelled from the spec: a number is an optional minus sign, then a zero or a run of
  digits that does not start with a zero, then optionally a dot with digits, then
  optionally an exponent (e or E, an optional sign, digits). It is an int unless a
  fraction or an exponent is there.
\<close>

definition nat_of_digits :: "ustring \<Rightarrow> nat" where
  "nat_of_digits ds = foldl (\<lambda>a d. 10 * a + (d - 48)) 0 ds"

definition scan_sign :: "ustring \<Rightarrow> ustring \<times> ustring" where
  "scan_sign s = (case s of c # t \<Rightarrow> if c = 45 then ([45], t) else ([], s) | [] \<Rightarrow> ([], s))"

definition scan_int_part :: "ustring \<Rightarrow> (ustring \<times> ustring) option" where
  "scan_int_part s =
     (case s of
        [] \<Rightarrow> None
      | d # t \<Rightarrow>
          if d = 48 then Some ([48], t)
          else if is_digit d then Some (d # takeWhile is_digit t, dropWhile is_digit t)
          else None)"

definition scan_frac :: "ustring \<Rightarrow> ustring \<times> ustring" where
  "scan_frac s =
     (case s of
        c # f \<Rightarrow>
          if c = 46 \<and> takeWhile is_digit f \<noteq> []
          then (46 # takeWhile is_digit f, dropWhile is_digit f) else ([], s)
      | [] \<Rightarrow> ([], s))"

definition scan_exp :: "ustring \<Rightarrow> ustring \<times> ustring" where
  "scan_exp s =
     (case s of
        e # r \<Rightarrow>
          if e = 101 \<or> e = 69 then
            (let (sg, r1) = (case r of c # t \<Rightarrow> if c = 43 \<or> c = 45 then ([c], t) else ([], r)
                                     | [] \<Rightarrow> ([], r))
             in if takeWhile is_digit r1 \<noteq> []
                then (e # sg @ takeWhile is_digit r1, dropWhile is_digit r1) else ([], s))
          else ([], s)
      | [] \<Rightarrow> ([], s))"

definition scan_number :: "ustring \<Rightarrow> (pyval \<times> ustring) option" where
  "scan_number s =
     (let (sg, s1) = scan_sign s in
      case scan_int_part s1 of
        None \<Rightarrow> None
      | Some (ip, s2) \<Rightarrow>
          (let (frac, s3) = scan_frac s2;
               (ex, s4) = scan_exp s3
           in if frac = [] \<and> ex = []
              then Some (VInt (if sg = [] then int (nat_of_digits ip)
                               else - int (nat_of_digits ip)), s4)
              else Some (VFloat (sg @ ip @ frac @ ex), s4)))"

text \<open>
  Modelled from the spec: the dict built from the pairs of an object; a key met again
  keeps its place and takes the later value.
\<close>

definition dict_of_pairs :: "(pyval \<times> pyval) list \<Rightarrow> (pyval \<times> pyval) list" where
  "dict_of_pairs ps = fold (\<lambda>(k, v) d. AList.update k v d) ps []"

text \<open>
  Modelled from the spec: the scanner, for one value, for the items of an array after the
  opening bracket, and for the members of an object from the quote of a key on. The first
  argument bounds the depth of the calls; \<open>json_loads\<close> starts it with more than any text
  can use. (Python gives up at its recursion limit; the texts of this script nest three
  deep.)
\<close>

fun scan_once :: "nat \<Rightarrow> ustring \<Rightarrow> (pyval \<times> ustring) option"
  and scan_array :: "nat \<Rightarrow> ustring \<Rightarrow> (pyval list \<times> ustring) option"
  and scan_object :: "nat \<Rightarrow> ustring \<Rightarrow> ((pyval \<times> pyval) list \<times> ustring) option" where
  "scan_once 0 s = None"
| "scan_once (Suc n) [] = None"
| "scan_once (Suc n) (c # cs) =
     (if c = 34 then map_option (\<lambda>(s, t). (VStr s, t)) (scan_string cs)
      else if c = 123 then
        (case skip_ws cs of
           [] \<Rightarrow> None
         | d # t \<Rightarrow>
             if d = 125 then Some (VDict [], t)
             else map_option (\<lambda>(ps, u). (VDict (dict_of_pairs ps), u)) (scan_object n (d # t)))
      else if c = 91 then
        (case skip_ws cs of
           [] \<Rightarrow> None
         | d # t \<Rightarrow>
             if d = 93 then Some (VList [], t)
             else map_option (\<lambda>(vs, u). (VList vs, u)) (scan_array n (d # t)))
      else if prefix (ascii ''null'') (c # cs) then Some (VNone, drop 4 (c # cs))
      else if prefix (ascii ''true'') (c # cs) then Some (VBool True, drop 4 (c # cs))
      else if prefix (ascii ''false'') (c # cs) then Some (VBool False, drop 5 (c # cs))
      else
        (case scan_number (c # cs) of
           Some r \<Rightarrow> Some r
         | None \<Rightarrow>
             if prefix (ascii ''NaN'') (c # cs) then Some (VFloat (ascii ''nan''), drop 3 (c # cs))
             else if prefix (ascii ''Infinity'') (c # cs)
               then Some (VFloat (ascii ''inf''), drop 8 (c # cs))
             else if prefix (ascii ''-Infinity'') (c # cs)
               then Some (VFloat (ascii ''-inf''), drop 9 (c # cs))
             else None))"
| "scan_array 0 s = None"
| "scan_array (Suc n) s =
     (case scan_once n s of
        None \<Rightarrow> None
      | Some (v, r) \<Rightarrow>
          (case skip_ws r of
             [] \<Rightarrow> None
           | d # t \<Rightarrow>
               if d = 93 then Some ([v], t)
               else if d = 44 then map_option (\<lambda>(vs, u). (v # vs, u)) (scan_array n (skip_ws t))
               else None))"
| "scan_object 0 s = None"
| "scan_object (Suc n) s =
     (case s of
        [] \<Rightarrow> None
      | q # cs \<Rightarrow>
          if q \<noteq> 34 then None
          else
            (case scan_string cs of
               None \<Rightarrow> None
             | Some (key, r) \<Rightarrow>
                 (case skip_ws r of
                    [] \<Rightarrow> None
                  | colon # r1 \<Rightarrow>
                      if colon \<noteq> 58 then None
                      else
                        (case scan_once n (skip_ws r1) of
                           None \<Rightarrow> None
                         | Some (v, r2) \<Rightarrow>
                             (case skip_ws r2 of
                                [] \<Rightarrow> None
                              | d # t \<Rightarrow>
                                  if d = 125 then Some ([(VStr key, v)], t)
                                  else if d = 44 then
                                    map_option (\<lambda>(ps, u). ((VStr key, v) # ps, u))
                                      (scan_object n (skip_ws t))
                                  else None)))))"

text \<open>
  Modelled from the spec: \<open>json.loads\<close>. The text is one value between optional white
  space; \<open>None\<close> stands for JSONDecodeError.
\<close>

definition json_loads :: "ustring \<Rightarrow> pyval option" where
  "json_loads s =
     (case scan_once (2 * length s + 1) (skip_ws s) of
        None \<Rightarrow> None
      | Some (v, r) \<Rightarrow> if skip_ws r = [] then Some v else None)"

text \<open>
  What the two conversion tables together make of a value: the keys of every dict have
  become strings, and of two keys that have become the same string the later one has won.
\<close>

fun decoded :: "pyval \<Rightarrow> pyval" where
  "decoded (VList vs) = VList (map decoded vs)"
| "decoded (VDict kvs) =
     VDict (dict_of_pairs (map (\<lambda>kv. (VStr (key_text (fst kv)), decoded (snd kv))) kvs))"
| "decoded v = v"

text \<open>Predicates on texts and values, for the proofs about the scanner.\<close>

definition value_end :: "ustring \<Rightarrow> bool" where
  "value_end rest = (case rest of [] \<Rightarrow> True | c # t \<Rightarrow> c = 44 \<or> c = 10)"

definition starts_token :: "ustring \<Rightarrow> bool" where
  "starts_token s = (case s of [] \<Rightarrow> False | c # t \<Rightarrow> \<not> is_ws c)"

definition float_text :: "ustring \<Rightarrow> bool" where
  "float_text r =
     (r = ascii ''nan'' \<or> r = ascii ''inf'' \<or> r = ascii ''-inf'' \<or>
      scan_number r = Some (VFloat r, []))"

fun floats_ok :: "pyval \<Rightarrow> bool" where
  "floats_ok (VFloat r) = float_text r"
| "floats_ok (VList vs) = list_all floats_ok vs"
| "floats_ok (VDict kvs) = list_all (\<lambda>kv. floats_ok (snd kv)) kvs"
| "floats_ok v = True"

definition opens_value :: "ustring \<Rightarrow> bool" where
  "opens_value s =
     (case s of [] \<Rightarrow> False | c # t \<Rightarrow> \<not> is_ws c \<and> c \<noteq> 93 \<and> c \<noteq> 125 \<and> c \<noteq> 44)"

subsection \<open>The list of payments as a Python value\<close>

text \<open>
  The list handed to json.dump, as a value of the kind above: each record is the dict of
  the source, its keys in the order of the dict literal, with the row's dict under
  \<open>feedback_data\<close>.
\<close>

fun cell_value :: "cell \<Rightarrow> pyval" where
  "cell_value (PyStr s) = VStr s"
| "cell_value (PyInt i) = VInt i"
| "cell_value (PyBool b) = VBool b"
| "cell_value PyNaN = VFloat nan"
| "cell_value (PyFloat r) = VFloat r"
| "cell_value (PyObj r) = VObj r"

text \<open>
  Modelled from the spec: the \<open>repr\<close> of a float whose value is a whole number below
  \<open>10 ^ 16\<close> in magnitude, as the amount 3.00 is: its digits, a dot and a zero. The
  script makes no other float itself, and no text is given here for one.
\<close>

definition float_repr :: "real \<Rightarrow> ustring" where
  "float_repr x =
     (if x = of_int \<lfloor>x\<rfloor> \<and> \<bar>x\<bar> < 10 ^ 16 then str_int \<lfloor>x\<rfloor> @ ascii ''.0'' else [])"

definition payment_dict :: "payment_info \<Rightarrow> pyval" where
  "payment_dict p =
     VDict
       [(VStr (ascii ''id''), VStr (id_uuid p)),
        (VStr (ascii ''feedback_code''), cell_value (feedback_code p)),
        (VStr (ascii ''alipay_account''), cell_value (alipay_account p)),
        (VStr (ascii ''amount''), VFloat (float_repr (amount p))),
        (VStr (ascii ''quality_score''), VInt (quality_score p)),
        (VStr (ascii ''created_at''), VStr (created_at p)),
        (VStr (ascii ''payment_status''), VStr (payment_status p)),
        (VStr (ascii ''feedback_data''),
           VDict (map (\<lambda>kv. (cell_value (fst kv), cell_value (snd kv))) (feedback_data p)))]"

definition payment_list_value :: "payment_info list \<Rightarrow> pyval" where
  "payment_list_value payment_list = VList (map payment_dict payment_list)"

text \<open>
  A cell that JSON can represent: a string, an integer, a bool or a finite float. The
  three special floats and the values of unknown classes are not.
\<close>

fun json_representable :: "cell \<Rightarrow> bool" where
  "json_representable (PyStr s) = True"
| "json_representable (PyInt i) = True"
| "json_representable (PyBool b) = True"
| "json_representable PyNaN = False"
| "json_representable (PyFloat r) = (scan_number r = Some (VFloat r, []))"
| "json_representable (PyObj r) = False"

definition cells_representable :: "payment_info \<Rightarrow> bool" where
  "cells_representable p =
     (json_representable (feedback_code p) \<and> json_representable (alipay_account p) \<and>
      list_all (\<lambda>kv. json_representable (snd kv)) (feedback_data p))"

text \<open>A column label that is a string.\<close>

fun is_string :: "cell \<Rightarrow> bool" where
  "is_string (PyStr s) = True"
| "is_string c = False"

definition labels_are_strings :: "payment_info \<Rightarrow> bool" where
  "labels_are_strings p = list_all (\<lambda>kv. is_string (fst kv)) (feedback_data p)"

text \<open>
  Sample tables: one whose qualifying row has no empty cell, and the same row under a
  header whose first cell is the number 1.
\<close>

definition plain_row :: series where
  "plain_row = \<lparr>index = sample_columns,
     vals = [PyInt 5, PyStr (ascii ''FB-0005''), PyStr (ascii ''g@h.cn''), PyFloat (ascii ''4.5''),
             PyStr (ascii ''Export to Excel fails''),
             PyStr (ascii ''Login times out often''),
             PyStr (ascii ''ok''),
             PyBool True]\<rparr>"

definition plain_df :: dataframe where
  "plain_df = \<lparr>columns = sample_columns, rows = [vals sample_blank_row, vals plain_row]\<rparr>"

definition plain_payment_list :: "payment_info list" where
  "plain_payment_list = [payment_for sample_world sample_columns (0, vals plain_row)]"

definition numbered_columns :: "cell list" where
  "numbered_columns = PyInt 1 # map (\<lambda>s. PyStr (ascii s))
     [''code'', ''account'', ''time'', ''q1'', ''q2'', ''q3'', ''q4'']"

definition numbered_df :: dataframe where
  "numbered_df = \<lparr>columns = numbered_columns, rows = [vals plain_row]\<rparr>"

definition numbered_payment_list :: "payment_info list" where
  "numbered_payment_list = [payment_for sample_world numbered_columns (0, vals plain_row)]"

text \<open>Every key of every dict in a value is a string.\<close>

fun string_keys :: "pyval \<Rightarrow> bool" where
  "string_keys (VList vs) = list_all string_keys vs"
| "string_keys (VDict kvs) =
     list_all (\<lambda>kv. (case fst kv of VStr s \<Rightarrow> True | _ \<Rightarrow> False) \<and> string_keys (snd kv)) kvs"
| "string_keys v = True"


section \<open>Properties of the scorer\<close>

subsection \<open>Auxiliary facts\<close>

lemma upt_4_8: "[4 ..< 8] = [4, 5, 6, 7::nat]"
  by (simp add: upt_rec)

lemma text_fields_of_in_range:
  "\<forall>i \<in> set ps. i < length (vals row) \<Longrightarrow>
     text_fields_of row ps = Inr (map (\<lambda>i. str (vals row ! i)) ps)"
  by (induction ps) (simp_all add: iloc_def)

lemma text_fields_of_out_of_range:
  "\<exists>i \<in> set ps. length (vals row) \<le> i \<Longrightarrow> text_fields_of row ps = Inl IndexError"
proof (induction ps)
  case Nil
  then show ?case by simp
next
  case (Cons p ps)
  show ?case
  proof (cases "p < length (vals row)")
    case True
    with Cons.prems have "\<exists>i \<in> set ps. length (vals row) \<le> i" by auto
    then have "text_fields_of row ps = Inl IndexError" by (rule Cons.IH)
    then show ?thesis by (simp add: iloc_def True)
  next
    case False
    then show ?thesis by (simp add: iloc_def)
  qed
qed

lemma length_loop_count:
  "length_loop ts score = score + int (length (filter (\<lambda>t. 10 < length t \<and> t \<noteq> nan) ts))"
  by (induction ts arbitrary: score) simp_all

lemma length_nan: "length nan = 3"
  by (simp add: nan_def ascii_def)

lemma length_loop_no_sentinel_eq: "length_loop_no_sentinel ts score = length_loop ts score"
  by (induction ts arbitrary: score) (auto simp: length_nan)

lemma assess_wide:
  assumes "8 \<le> length (vals row)"
  shows "assess_feedback_quality row = Inr (reference_score (vals row))"
proof -
  have tf: "text_fields_of row [4, 5, 6, 7] = Inr (map (\<lambda>i. str (vals row ! i)) [4, 5, 6, 7])"
    using assms by (intro text_fields_of_in_range) simp
  show ?thesis
    unfolding assess_feedback_quality_def upt_4_8 tf reference_score_def
    by (simp add: length_loop_count list_ex_iff Let_def)
qed

lemma assess_narrow:
  assumes "length (vals row) < 8"
  shows "assess_feedback_quality row = Inl IndexError"
proof -
  have "text_fields_of row [4, 5, 6, 7] = Inl IndexError"
    using assms by (intro text_fields_of_out_of_range) simp
  then show ?thesis
    unfolding assess_feedback_quality_def upt_4_8 by simp
qed

lemma reference_score_bounds: "1 \<le> reference_score cells \<and> reference_score cells \<le> 5"
  by (simp add: reference_score_def Let_def)

lemma assess_no_sentinel_eq: "assess_feedback_quality_no_sentinel row = assess_feedback_quality row"
  unfolding assess_feedback_quality_no_sentinel_def assess_feedback_quality_def
    length_loop_no_sentinel_eq ..

lemma lower_cp_cjk: "cjk a \<Longrightarrow> (a = lower_cp b) = (a = b)"
  by (auto simp: cjk_def lower_cp_def)

lemma prefix_lower:
  "\<forall>c \<in> set w. cjk c \<Longrightarrow> prefix w (lower s) = prefix w s"
proof (induction w arbitrary: s)
  case Nil
  then show ?case by simp
next
  case (Cons a w)
  then show ?case
    by (cases s) (simp_all add: lower_def lower_cp_cjk)
qed

lemma contains_lower:
  assumes "\<forall>c \<in> set w. cjk c"
  shows "contains w (lower s) = contains w s"
proof (induction s)
  case Nil
  then show ?case by (simp add: lower_def)
next
  case (Cons c cs)
  have "prefix w (lower (c # cs)) = prefix w (c # cs)"
    using assms by (rule prefix_lower)
  with Cons show ?case by (simp add: lower_def)
qed

lemma suggestion_words_cjk: "k \<in> set suggestion_words \<Longrightarrow> \<forall>c \<in> set k. cjk c"
  by (auto simp: suggestion_words_def cjk_def)

lemma contains_iff_sublist: "contains w s = sublist w s"
  by (induction s) (simp_all add: sublist_Cons_right)

lemma contains_join:
  "t \<in> set ts \<Longrightarrow> contains w t \<Longrightarrow> contains w (join sep ts)"
proof (induction sep ts rule: join.induct)
  case (1 sep)
  then show ?case by simp
next
  case (2 sep x)
  then show ?case by simp
next
  case (3 sep x y ys)
  show ?case
  proof (cases "t = x")
    case True
    with 3 have "sublist w x" by (simp add: contains_iff_sublist)
    then have "sublist w (x @ sep @ join sep (y # ys))"
      using sublist_append by blast
    then show ?thesis by (simp add: contains_iff_sublist)
  next
    case False
    with 3 have "contains w (join sep (y # ys))" by simp
    then have "sublist w ((x @ sep) @ join sep (y # ys))"
      unfolding contains_iff_sublist using sublist_append by blast
    then show ?thesis by (simp add: contains_iff_sublist)
  qed
qed

lemma contains_set: "contains w s \<Longrightarrow> set w \<subseteq> set s"
  unfolding contains_iff_sublist by (rule set_mono_sublist)

lemma set_join: "set (join sep ts) \<subseteq> set sep \<union> \<Union> (set ` set ts)"
  by (induction sep ts rule: join.induct) auto

lemma no_keyword_in_blanks:
  assumes "\<forall>t \<in> set ts. t = nan \<or> t = []" and "k \<in> set suggestion_words"
  shows "\<not> contains k (lower (join [32] ts))"
proof
  assume "contains k (lower (join [32] ts))"
  then have "contains k (join [32] ts)"
    using assms(2) by (simp add: contains_lower suggestion_words_cjk)
  then have "set k \<subseteq> set (join [32] ts)" by (rule contains_set)
  also have "\<dots> \<subseteq> set [32] \<union> \<Union> (set ` set ts)" by (rule set_join)
  also have "\<dots> \<subseteq> {32, 110, 97}"
    using assms(1) by (auto simp: nan_def ascii_def)
  finally have "\<forall>c \<in> set k. c < 1000" by auto
  moreover have "\<exists>c \<in> set k. 1000 \<le> c"
    using assms(2) by (auto simp: suggestion_words_def)
  ultimately show False by fastforce
qed

lemma sample_blank_row_score: "assess_feedback_quality sample_blank_row = Inr 1"
  by (simp add: assess_feedback_quality_def sample_blank_row_def iloc_def ascii_def nan_def
      lower_def lower_cp_def suggestion_words_def)

lemma sample_keyword_row_score: "assess_feedback_quality sample_keyword_row = Inr 2"
  by (simp add: assess_feedback_quality_def sample_keyword_row_def iloc_def ascii_def nan_def
      lower_def lower_cp_def suggestion_words_def)

lemma sample_good_row_score: "assess_feedback_quality sample_good_row = Inr 5"
  by (simp add: assess_feedback_quality_def sample_good_row_def iloc_def ascii_def nan_def
      lower_def lower_cp_def suggestion_words_def)

lemma sample_good_row_wide: "8 \<le> length (vals sample_good_row)"
  by (simp add: sample_good_row_def)


subsection \<open>The score against its reference definition\<close>

text \<open>
  Claim C1. On a row that has the positions 4 to 7, the score returned by
  \<open>assess_feedback_quality\<close> is the reference score: 1, plus one for each of the four
  texts longer than 10 and different from \<open>nan\<close>, plus one if a keyword occurs in the
  lowercased space-joined text, the total capped at 5. (A shorter row raises IndexError.)
\<close>

theorem assess_feedback_quality_is_reference:
  "8 \<le> length (vals row) \<Longrightarrow>
     assess_feedback_quality row = Inr (reference_score (vals row))"
  by (rule assess_wide)

theorem assess_feedback_quality_is_reference_witness:
  "8 \<le> length (vals sample_good_row) \<and>
   assess_feedback_quality sample_good_row = Inr (reference_score (vals sample_good_row)) \<and>
   reference_score (vals sample_good_row) = 5"
proof -
  have eq: "assess_feedback_quality sample_good_row = Inr (reference_score (vals sample_good_row))"
    using assess_feedback_quality_is_reference [OF sample_good_row_wide] .
  with sample_good_row_score have "reference_score (vals sample_good_row) = 5" by simp
  with eq sample_good_row_wide show ?thesis by blast
qed


subsection \<open>Range of the score\<close>

text \<open>
  Claim C2. Whatever the row, a value returned by \<open>assess_feedback_quality\<close> is an integer
  between 0 and 5; and a value is returned for every row that has the positions 4 to 7.
\<close>

theorem quality_score_in_range:
  "(\<forall>s. assess_feedback_quality row = Inr s \<longrightarrow> 0 \<le> s \<and> s \<le> 5) \<and>
   (8 \<le> length (vals row) \<longrightarrow> (\<exists>s. assess_feedback_quality row = Inr s))"
proof (cases "8 \<le> length (vals row)")
  case True
  then have "assess_feedback_quality row = Inr (reference_score (vals row))"
    by (rule assess_wide)
  moreover have "0 \<le> reference_score (vals row)"
    using reference_score_bounds [of "vals row"] by simp
  moreover have "reference_score (vals row) \<le> 5"
    using reference_score_bounds [of "vals row"] by simp
  ultimately show ?thesis by simp
next
  case False
  then have "assess_feedback_quality row = Inl IndexError"
    by (intro assess_narrow) simp
  with False show ?thesis by simp
qed

theorem quality_score_in_range_witness:
  "assess_feedback_quality sample_good_row = Inr 5 \<and> (0::int) \<le> 5 \<and> (5::int) \<le> 5"
  using quality_score_in_range [of sample_good_row] sample_good_row_score by simp

text \<open>
  Claim C9. A value returned by \<open>assess_feedback_quality\<close> is at least 1, so 0 is never
  returned; and a value is returned for every row that has the positions 4 to 7.
\<close>

theorem quality_score_at_least_one:
  "(\<forall>s. assess_feedback_quality row = Inr s \<longrightarrow> 1 \<le> s) \<and>
   assess_feedback_quality row \<noteq> Inr 0 \<and>
   (8 \<le> length (vals row) \<longrightarrow> (\<exists>s. assess_feedback_quality row = Inr s))"
proof (cases "8 \<le> length (vals row)")
  case True
  then have "assess_feedback_quality row = Inr (reference_score (vals row))"
    by (rule assess_wide)
  moreover have "1 \<le> reference_score (vals row)"
    using reference_score_bounds [of "vals row"] by simp
  ultimately show ?thesis by simp
next
  case False
  then have "assess_feedback_quality row = Inl IndexError"
    by (intro assess_narrow) simp
  with False show ?thesis by simp
qed

theorem quality_score_at_least_one_witness:
  "assess_feedback_quality sample_blank_row = Inr 1 \<and> (1::int) \<le> 1 \<and>
   assess_feedback_quality sample_blank_row \<noteq> Inr 0"
  using quality_score_at_least_one [of sample_blank_row] sample_blank_row_score by simp


subsection \<open>The sentinel test\<close>

text \<open>
  Claim C10. The test against \<open>nan\<close> in the loop is redundant: the scorer without it
  returns, on every row, what \<open>assess_feedback_quality\<close> returns, since \<open>nan\<close> has length
  3 and never passes the length test.
\<close>

theorem sentinel_check_redundant:
  "assess_feedback_quality_no_sentinel row = assess_feedback_quality row"
  by (rule assess_no_sentinel_eq)

theorem sentinel_check_redundant_witness:
  "assess_feedback_quality_no_sentinel sample_blank_row = Inr 1 \<and>
   assess_feedback_quality sample_blank_row = Inr 1"
  using sentinel_check_redundant [of sample_blank_row] sample_blank_row_score by simp


subsection \<open>Blank rows and keyword-only rows\<close>

text \<open>
  Claim C6. A row whose four texts (positions 4 to 7) are each \<open>nan\<close> or empty scores
  exactly 1.
\<close>

theorem blank_row_scores_one:
  assumes "8 \<le> length (vals row)"
    and "\<forall>i \<in> {4, 5, 6, 7}. str (vals row ! i) = nan \<or> str (vals row ! i) = []"
  shows "assess_feedback_quality row = Inr 1"
proof -
  let ?ts = "map (\<lambda>i. str (vals row ! i)) [4, 5, 6, 7]"
  have blank: "\<forall>t \<in> set ?ts. t = nan \<or> t = []"
    using assms(2) by simp
  have short: "filter (\<lambda>t. 10 < length t \<and> t \<noteq> nan) ?ts = []"
    using assms(2) by (auto simp: length_nan)
  have none: "\<not> (\<exists>k \<in> set suggestion_words. contains k (lower (join [32] ?ts)))"
    using no_keyword_in_blanks [OF blank] by blast
  have "reference_score (vals row) = 1"
    unfolding reference_score_def Let_def short using none by simp
  with assess_wide [OF assms(1)] show ?thesis by simp
qed

theorem blank_row_scores_one_witness:
  "length (vals sample_blank_row) = 8 \<and>
   str (vals sample_blank_row ! 4) = nan \<and>
   str (vals sample_blank_row ! 5) = [] \<and>
   str (vals sample_blank_row ! 6) = nan \<and>
   str (vals sample_blank_row ! 7) = nan \<and>
   assess_feedback_quality sample_blank_row = Inr 1"
proof -
  have w: "8 \<le> length (vals sample_blank_row)"
    by (simp add: sample_blank_row_def)
  have b: "\<forall>i \<in> {4, 5, 6, 7}. str (vals sample_blank_row ! i) = nan \<or>
                                str (vals sample_blank_row ! i) = []"
    by (simp add: sample_blank_row_def)
  have "assess_feedback_quality sample_blank_row = Inr 1"
    using blank_row_scores_one [OF w b] .
  then show ?thesis by (simp add: sample_blank_row_def)
qed

text \<open>
  Claim C7. A row in which some text (positions 4 to 7) contains one of the keywords and
  no text is longer than 10 scores exactly 2.
\<close>

theorem keyword_only_row_scores_two:
  assumes "8 \<le> length (vals row)"
    and "\<forall>i \<in> {4, 5, 6, 7}. length (str (vals row ! i)) \<le> 10"
    and "\<exists>i \<in> {4, 5, 6, 7}. \<exists>k \<in> set suggestion_words. contains k (str (vals row ! i))"
  shows "assess_feedback_quality row = Inr 2"
proof -
  let ?ts = "map (\<lambda>i. str (vals row ! i)) [4, 5, 6, 7]"
  have short: "filter (\<lambda>t. 10 < length t \<and> t \<noteq> nan) ?ts = []"
    using assms(2) by auto
  from assms(3) obtain i k where i: "i \<in> {4, 5, 6, 7}" and k: "k \<in> set suggestion_words"
    and c: "contains k (str (vals row ! i))" by blast
  from i have "str (vals row ! i) \<in> set ?ts" by auto
  then have "contains k (join [32] ?ts)" using c by (rule contains_join)
  then have "contains k (lower (join [32] ?ts))"
    using k by (simp add: contains_lower suggestion_words_cjk)
  with k have some: "\<exists>k \<in> set suggestion_words. contains k (lower (join [32] ?ts))" by blast
  have "reference_score (vals row) = 2"
    unfolding reference_score_def Let_def short using some by simp
  with assess_wide [OF assms(1)] show ?thesis by simp
qed

theorem keyword_only_row_scores_two_witness:
  "length (vals sample_keyword_row) = 8 \<and>
   length (str (vals sample_keyword_row ! 4)) = 2 \<and>
   length (str (vals sample_keyword_row ! 5)) = 3 \<and>
   length (str (vals sample_keyword_row ! 6)) = 3 \<and>
   length (str (vals sample_keyword_row ! 7)) = 3 \<and>
   contains [24314, 35758] (str (vals sample_keyword_row ! 4)) \<and>
   assess_feedback_quality sample_keyword_row = Inr 2"
proof -
  have w: "8 \<le> length (vals sample_keyword_row)"
    by (simp add: sample_keyword_row_def)
  have s: "\<forall>i \<in> {4, 5, 6, 7}. length (str (vals sample_keyword_row ! i)) \<le> 10"
    by (simp add: sample_keyword_row_def nan_def ascii_def)
  have k: "\<exists>i \<in> {4, 5, 6, 7}. \<exists>k \<in> set suggestion_words.
             contains k (str (vals sample_keyword_row ! i))"
    by (simp add: sample_keyword_row_def suggestion_words_def)
  have "assess_feedback_quality sample_keyword_row = Inr 2"
    using keyword_only_row_scores_two [OF w s k] .
  then show ?thesis by (simp add: sample_keyword_row_def nan_def ascii_def)
qed


section \<open>Properties of the batch processor\<close>

subsection \<open>The loop over the rows\<close>

lemma qualifies_wide:
  "8 \<le> length r \<Longrightarrow> qualifies cols r = (3 \<le> reference_score r)"
  by (simp add: qualifies_def assess_wide)

lemma qualifies_narrow: "length r < 8 \<Longrightarrow> \<not> qualifies cols r"
  by (simp add: qualifies_def assess_narrow)

lemma payment_for_shift:
  "payment_for (w\<lparr>uuid4_calls := Suc (uuid4_calls w), now_calls := Suc (now_calls w)\<rparr>) cols (i, r)
     = payment_for w cols (Suc i, r)"
  by (simp add: payment_for_def)

lemma map_payment_for_shift:
  "map (payment_for (w\<lparr>uuid4_calls := Suc (uuid4_calls w), now_calls := Suc (now_calls w)\<rparr>) cols)
       (enumerate 0 xs)
     = map (payment_for w cols) (enumerate (Suc 0) xs)"
  by (simp add: enumerate_Suc_eq payment_for_def split_def apfst_def map_prod_def)

lemma iterrows_loop_wide:
  "\<forall>r \<in> set rs. 8 \<le> length r \<Longrightarrow>
   iterrows_loop cols rs acc w =
     Inr (acc @ map (payment_for w cols) (enumerate 0 (filter (qualifies cols) rs)),
          w\<lparr>uuid4_calls := uuid4_calls w + length (filter (qualifies cols) rs),
            now_calls := now_calls w + length (filter (qualifies cols) rs)\<rparr>)"
proof (induction rs arbitrary: acc w)
  case Nil
  then show ?case by simp
next
  case (Cons r rs)
  let ?row = "\<lparr>index = cols, vals = r\<rparr>"
  let ?w2 = "w\<lparr>uuid4_calls := Suc (uuid4_calls w), now_calls := Suc (now_calls w)\<rparr>"
  from Cons.prems have wide: "8 \<le> length r" and rest: "\<forall>r \<in> set rs. 8 \<le> length r"
    by simp_all
  have i1: "iloc ?row 1 = Inr (r ! 1)" and i2: "iloc ?row 2 = Inr (r ! 2)"
    using wide by (simp_all add: iloc_def)
  have sc: "assess_feedback_quality ?row = Inr (reference_score r)"
    using wide assess_wide [of ?row] by simp
  show ?case
  proof (cases "qualifies cols r")
    case True
    then have ge: "3 \<le> reference_score r" using wide by (simp add: qualifies_wide)
    have step: "iterrows_loop cols (r # rs) acc w =
        iterrows_loop cols rs (acc @ [payment_for w cols (0, r)]) ?w2"
      using ge i1 i2 sc by (simp add: Let_def uuid4_def now_def payment_for_def)
    show ?thesis
      unfolding step Cons.IH [OF rest]
      using True by (simp add: map_payment_for_shift)
  next
    case False
    then have lt: "\<not> 3 \<le> reference_score r" using wide by (simp add: qualifies_wide)
    have step: "iterrows_loop cols (r # rs) acc w = iterrows_loop cols rs acc w"
      using lt i1 i2 sc by (simp add: Let_def)
    show ?thesis
      unfolding step Cons.IH [OF rest] using False by simp
  qed
qed

lemma iterrows_loop_narrow:
  "\<exists>r \<in> set rs. length r < 8 \<Longrightarrow> iterrows_loop cols rs acc w = Inl IndexError"
proof (induction rs arbitrary: acc w)
  case Nil
  then show ?case by simp
next
  case (Cons r rs)
  let ?row = "\<lparr>index = cols, vals = r\<rparr>"
  show ?case
  proof (cases "length r < 8")
    case True
    then have "assess_feedback_quality ?row = Inl IndexError"
      by (simp add: assess_narrow)
    then show ?thesis
      by (auto simp: Let_def iloc_def split: sum.splits if_splits)
  next
    case False
    with Cons.prems have ex: "\<exists>r \<in> set rs. length r < 8" by simp
    have wide: "8 \<le> length r" using False by simp
    have i1: "iloc ?row 1 = Inr (r ! 1)" and i2: "iloc ?row 2 = Inr (r ! 2)"
      using wide by (simp_all add: iloc_def)
    have sc: "assess_feedback_quality ?row = Inr (reference_score r)"
      using wide assess_wide [of ?row] by simp
    show ?thesis
      using i1 i2 sc by (simp add: Let_def uuid4_def now_def Cons.IH [OF ex])
  qed
qed

lemma set_alist_update: "set (AList.update k v al) \<subseteq> insert (k, v) (set al)"
  by (induction al) auto

lemma set_fold_update:
  "set (fold (\<lambda>(k, v) d. AList.update k v d) ps d0) \<subseteq> set ps \<union> set d0"
proof (induction ps arbitrary: d0)
  case Nil
  then show ?case by simp
next
  case (Cons p ps)
  obtain k v where p: "p = (k, v)" by (cases p)
  have "set (fold (\<lambda>(k, v) d. AList.update k v d) ps (AList.update k v d0))
          \<subseteq> set ps \<union> set (AList.update k v d0)"
    by (rule Cons.IH)
  also have "\<dots> \<subseteq> set ps \<union> insert (k, v) (set d0)"
    using set_alist_update [of k v d0] by blast
  finally show ?case by (auto simp: p)
qed

lemma to_dict_serializable:
  assumes "list_all json_serializable cols" and "list_all json_serializable r"
  shows "list_all (\<lambda>(k, v). json_serializable k \<and> json_serializable v)
           (to_dict \<lparr>index = cols, vals = r\<rparr>)"
proof -
  have "set (to_dict \<lparr>index = cols, vals = r\<rparr>) \<subseteq> set (zip cols r)"
    using set_fold_update [of "zip cols r" "[]"] by (simp add: to_dict_def)
  moreover have "\<forall>(k, v) \<in> set (zip cols r). json_serializable k \<and> json_serializable v"
    using assms by (auto simp: list_all_iff dest: set_zip_leftD set_zip_rightD)
  ultimately show ?thesis by (auto simp: list_all_iff)
qed

lemma payment_for_dumpable:
  assumes "list_all json_serializable cols" and "list_all json_serializable r"
    and "8 \<le> length r"
  shows "dumpable (payment_for w cols (i, r))"
proof -
  have "r ! 1 \<in> set r" and "r ! 2 \<in> set r"
    using assms(3) by simp_all
  then have "json_serializable (r ! 1)" and "json_serializable (r ! 2)"
    using assms(2) by (simp_all add: list_all_iff)
  then show ?thesis
    using to_dict_serializable [OF assms(1, 2)]
    by (simp add: dumpable_def payment_for_def make_payment_info_def)
qed

lemma expected_payment_list_dumpable:
  assumes "\<forall>r \<in> set (rows df). 8 \<le> length r \<and> list_all json_serializable r"
    and "list_all json_serializable (columns df)"
  shows "list_all dumpable (expected_payment_list df w)"
proof -
  have "dumpable (payment_for w (columns df) p)"
    if "p \<in> set (enumerate 0 (filter (qualifies (columns df)) (rows df)))" for p
  proof -
    obtain i r where p: "p = (i, r)" by (cases p)
    from that have "snd p \<in> set (map snd (enumerate 0 (filter (qualifies (columns df)) (rows df))))"
      unfolding set_map by (rule imageI)
    then have "r \<in> set (rows df)"
      by (simp add: p)
    with assms show ?thesis
      unfolding p by (intro payment_for_dumpable) auto
  qed
  then show ?thesis
    by (simp add: expected_payment_list_def list_all_iff)
qed

lemma process_wide:
  assumes "\<forall>r \<in> set (rows df). 8 \<le> length r"
  shows "process_questionnaire_responses df w =
           (if list_all dumpable (expected_payment_list df w)
            then Inr (expected_payment_list df w,
                      w\<lparr>uuid4_calls := uuid4_calls w + length (expected_payment_list df w),
                        now_calls := Suc (now_calls w + length (expected_payment_list df w)),
                        files := AList.update
                          (ascii ''payment_list_'' @
                             strftime_Ymd (clock w (now_calls w + length (expected_payment_list df w))) @
                             ascii ''.json'')
                          (expected_payment_list df w) (files w),
                        stdout := stdout w @
                          [report_prefix @ str_int (int (length (expected_payment_list df w)))]\<rparr>)
            else Inl TypeError)"
  by (simp add: process_questionnaire_responses_def iterrows_loop_wide [OF assms]
      expected_payment_list_def now_def Let_def)

lemma process_narrow:
  assumes "\<exists>r \<in> set (rows df). length r < 8"
  shows "process_questionnaire_responses df w = Inl IndexError"
  by (simp add: process_questionnaire_responses_def iterrows_loop_narrow [OF assms])

lemma process_Inr:
  assumes "process_questionnaire_responses df w = Inr (out, w')"
  shows "out = expected_payment_list df w"
proof (cases "\<forall>r \<in> set (rows df). 8 \<le> length r")
  case True
  from assms show ?thesis
    unfolding process_wide [OF True] by (simp split: if_splits)
next
  case False
  then have "\<exists>r \<in> set (rows df). length r < 8" by (simp add: not_le)
  then have "process_questionnaire_responses df w = Inl IndexError"
    by (rule process_narrow)
  with assms show ?thesis by simp
qed

lemma process_returns:
  assumes "\<forall>r \<in> set (rows df). 8 \<le> length r \<and> list_all json_serializable r"
    and "list_all json_serializable (columns df)"
  shows "\<exists>w'. process_questionnaire_responses df w = Inr (expected_payment_list df w, w')"
proof -
  have wide: "\<forall>r \<in> set (rows df). 8 \<le> length r" using assms(1) by blast
  have "list_all dumpable (expected_payment_list df w)"
    using assms by (rule expected_payment_list_dumpable)
  then show ?thesis
    unfolding process_wide [OF wide] by simp
qed

lemma length_expected_payment_list:
  "length (expected_payment_list df w) = length (filter (qualifies (columns df)) (rows df))"
  by (simp add: expected_payment_list_def)

lemma nth_expected_payment_list:
  assumes "i < length (filter (qualifies (columns df)) (rows df))"
  shows "expected_payment_list df w ! i =
           payment_for w (columns df) (i, filter (qualifies (columns df)) (rows df) ! i)"
  using assms by (simp add: expected_payment_list_def nth_enumerate_eq)

lemma map_snd_enumerate_fun: "map (\<lambda>p. g (snd p)) (enumerate n xs) = map g xs"
  by (induction xs arbitrary: n) simp_all

lemma feedback_data_expected_payment_list:
  "map feedback_data (expected_payment_list df w) =
     map (\<lambda>r. to_dict \<lparr>index = columns df, vals = r\<rparr>)
       (filter (qualifies (columns df)) (rows df))"
proof -
  have "map feedback_data (expected_payment_list df w) =
        map (\<lambda>p. to_dict \<lparr>index = columns df, vals = snd p\<rparr>)
          (enumerate 0 (filter (qualifies (columns df)) (rows df)))"
    by (simp add: expected_payment_list_def payment_for_def make_payment_info_def
        split_def comp_def)
  then show ?thesis
    by (simp only: map_snd_enumerate_fun [of "\<lambda>r. to_dict \<lparr>index = columns df, vals = r\<rparr>"])
qed

lemma sample_long_row_score: "assess_feedback_quality sample_long_row = Inr 3"
  by (simp add: assess_feedback_quality_def sample_long_row_def iloc_def ascii_def nan_def
      lower_def lower_cp_def suggestion_words_def)


subsection \<open>The sample table\<close>

lemma sample_df_rows_ok:
  "\<forall>r \<in> set (rows sample_df). 8 \<le> length r \<and> list_all json_serializable r"
  by (simp add: sample_df_def sample_blank_row_def sample_good_row_def sample_keyword_row_def
      sample_long_row_def)

lemma sample_df_columns_ok: "list_all json_serializable (columns sample_df)"
  by (simp add: sample_df_def sample_columns_def)

lemma sample_rows_as_series:
  "\<lparr>index = sample_columns, vals = vals sample_blank_row\<rparr> = sample_blank_row"
  "\<lparr>index = sample_columns, vals = vals sample_good_row\<rparr> = sample_good_row"
  "\<lparr>index = sample_columns, vals = vals sample_keyword_row\<rparr> = sample_keyword_row"
  "\<lparr>index = sample_columns, vals = vals sample_long_row\<rparr> = sample_long_row"
  by (simp_all add: sample_blank_row_def sample_good_row_def sample_keyword_row_def
      sample_long_row_def)

lemma sample_qualifying:
  "filter (qualifies (columns sample_df)) (rows sample_df) =
     [vals sample_good_row, vals sample_long_row]"
  by (simp add: sample_df_def qualifies_def sample_rows_as_series sample_blank_row_score
      sample_good_row_score sample_keyword_row_score sample_long_row_score)

lemma sample_expected:
  "expected_payment_list sample_df sample_world =
     [payment_for sample_world sample_columns (0, vals sample_good_row),
      payment_for sample_world sample_columns (1, vals sample_long_row)]"
  unfolding expected_payment_list_def sample_qualifying
  by (simp add: sample_df_def)

lemma sample_run:
  "\<exists>w'. process_questionnaire_responses sample_df sample_world =
          Inr ([payment_for sample_world sample_columns (0, vals sample_good_row),
                payment_for sample_world sample_columns (1, vals sample_long_row)], w')"
  using process_returns [OF sample_df_rows_ok sample_df_columns_ok, of sample_world]
  unfolding sample_expected .


subsection \<open>The list of payments\<close>

text \<open>
  Claim C3. The list a run returns holds exactly one record for each row whose score is
  at least 3, in the order of the rows: it is the list of the records built for the
  qualifying rows, taken in input order, so its length is the number of such rows. A run
  returns such a list whenever every row has the positions 0 to 7 and every cell and
  label is one the json module accepts.
\<close>

theorem payment_list_follows_rows:
  "(\<forall>out w'. process_questionnaire_responses df w = Inr (out, w') \<longrightarrow>
      out = expected_payment_list df w \<and>
      length out = length (filter (qualifies (columns df)) (rows df)) \<and>
      map feedback_data out =
        map (\<lambda>r. to_dict \<lparr>index = columns df, vals = r\<rparr>)
          (filter (qualifies (columns df)) (rows df))) \<and>
   ((\<forall>r \<in> set (rows df). 8 \<le> length r \<and> list_all json_serializable r) \<and>
    list_all json_serializable (columns df) \<longrightarrow>
      (\<exists>w'. process_questionnaire_responses df w = Inr (expected_payment_list df w, w')))"
proof (intro conjI allI impI)
  fix out w'
  assume "process_questionnaire_responses df w = Inr (out, w')"
  then show out: "out = expected_payment_list df w" by (rule process_Inr)
  show "length out = length (filter (qualifies (columns df)) (rows df))"
    unfolding out by (rule length_expected_payment_list)
  show "map feedback_data out =
          map (\<lambda>r. to_dict \<lparr>index = columns df, vals = r\<rparr>)
            (filter (qualifies (columns df)) (rows df))"
    unfolding out by (rule feedback_data_expected_payment_list)
next
  assume "(\<forall>r \<in> set (rows df). 8 \<le> length r \<and> list_all json_serializable r) \<and>
          list_all json_serializable (columns df)"
  then show "\<exists>w'. process_questionnaire_responses df w = Inr (expected_payment_list df w, w')"
    using process_returns [of df w] by blast
qed

theorem payment_list_follows_rows_witness:
  "filter (qualifies (columns sample_df)) (rows sample_df) =
     [vals sample_good_row, vals sample_long_row] \<and>
   (\<exists>w'. process_questionnaire_responses sample_df sample_world =
          Inr ([payment_for sample_world sample_columns (0, vals sample_good_row),
                payment_for sample_world sample_columns (1, vals sample_long_row)], w'))"
proof -
  have "\<exists>w'. process_questionnaire_responses sample_df sample_world =
          Inr (expected_payment_list sample_df sample_world, w')"
    using payment_list_follows_rows [of sample_df sample_world]
      sample_df_rows_ok sample_df_columns_ok by blast
  then show ?thesis
    unfolding sample_expected using sample_qualifying by simp
qed

text \<open>
  Claim C4. Every record of the list a run returns has the amount 3.00 and the payment
  status \<open>pending\<close>.
\<close>

theorem payment_amount_and_status:
  assumes "process_questionnaire_responses df w = Inr (out, w')"
  shows "\<forall>p \<in> set out. amount p = 3.00 \<and> payment_status p = ascii ''pending''"
proof -
  have "out = expected_payment_list df w"
    using assms by (rule process_Inr)
  then show ?thesis
    by (auto simp: expected_payment_list_def payment_for_def make_payment_info_def)
qed

theorem payment_amount_and_status_witness:
  "\<exists>out w'. process_questionnaire_responses sample_df sample_world = Inr (out, w') \<and>
      length out = 2 \<and>
      amount (out ! 0) = 3.00 \<and> payment_status (out ! 0) = ascii ''pending'' \<and>
      amount (out ! 1) = 3.00 \<and> payment_status (out ! 1) = ascii ''pending''"
proof -
  let ?out = "[payment_for sample_world sample_columns (0, vals sample_good_row),
               payment_for sample_world sample_columns (1, vals sample_long_row)]"
  from sample_run obtain w' where
    run: "process_questionnaire_responses sample_df sample_world = Inr (?out, w')" ..
  have all: "\<forall>p \<in> set ?out. amount p = 3.00 \<and> payment_status p = ascii ''pending''"
    using payment_amount_and_status [OF run] .
  have "amount (?out ! 0) = 3.00 \<and> payment_status (?out ! 0) = ascii ''pending'' \<and>
        amount (?out ! 1) = 3.00 \<and> payment_status (?out ! 1) = ascii ''pending''"
    using all by simp
  with run show ?thesis by (intro exI [of _ ?out] exI [of _ w']) simp
qed

text \<open>
  Claim C5. The record emitted for a qualifying row carries, as its feedback code, the
  cell at position 1 of that row and, as its Alipay account, the cell at position 2.
\<close>

theorem payment_code_and_account:
  assumes "process_questionnaire_responses df w = Inr (out, w')"
  shows "length out = length (filter (qualifies (columns df)) (rows df)) \<and>
         (\<forall>i < length out.
            iloc \<lparr>index = columns df, vals = filter (qualifies (columns df)) (rows df) ! i\<rparr> 1
              = Inr (feedback_code (out ! i)) \<and>
            iloc \<lparr>index = columns df, vals = filter (qualifies (columns df)) (rows df) ! i\<rparr> 2
              = Inr (alipay_account (out ! i)))"
proof -
  let ?qs = "filter (qualifies (columns df)) (rows df)"
  have out: "out = expected_payment_list df w"
    using assms by (rule process_Inr)
  have len: "length out = length ?qs"
    unfolding out by (rule length_expected_payment_list)
  have "iloc \<lparr>index = columns df, vals = ?qs ! i\<rparr> 1 = Inr (feedback_code (out ! i)) \<and>
        iloc \<lparr>index = columns df, vals = ?qs ! i\<rparr> 2 = Inr (alipay_account (out ! i))"
    if "i < length out" for i
  proof -
    from that len have i: "i < length ?qs" by simp
    then have "?qs ! i \<in> set ?qs" by (rule nth_mem)
    then have "qualifies (columns df) (?qs ! i)" by simp
    then have "\<not> length (?qs ! i) < 8"
      using qualifies_narrow [of "?qs ! i" "columns df"] by blast
    then have wide: "8 \<le> length (?qs ! i)" by simp
    have "out ! i = payment_for w (columns df) (i, ?qs ! i)"
      unfolding out using i by (rule nth_expected_payment_list)
    then show ?thesis
      using wide by (simp add: payment_for_def make_payment_info_def iloc_def)
  qed
  with len show ?thesis by blast
qed

theorem payment_code_and_account_witness:
  "\<exists>out w'. process_questionnaire_responses sample_df sample_world = Inr (out, w') \<and>
      length out = 2 \<and>
      feedback_code (out ! 0) = PyStr (ascii ''FB-0003'') \<and>
      alipay_account (out ! 0) = PyStr (ascii ''e@f.cn'') \<and>
      feedback_code (out ! 1) = PyStr (ascii ''FB-0004'') \<and>
      alipay_account (out ! 1) = PyInt 13800000000"
proof -
  let ?out = "[payment_for sample_world sample_columns (0, vals sample_good_row),
               payment_for sample_world sample_columns (1, vals sample_long_row)]"
  from sample_run obtain w' where
    run: "process_questionnaire_responses sample_df sample_world = Inr (?out, w')" ..
  note fact = payment_code_and_account [OF run, unfolded sample_qualifying,
      THEN conjunct2, rule_format]
  from fact [of 0] have "iloc \<lparr>index = columns sample_df, vals = [vals sample_good_row, vals sample_long_row] ! 0\<rparr> 1
              = Inr (feedback_code (?out ! 0))"
    by simp
  then have a: "feedback_code (?out ! 0) = PyStr (ascii ''FB-0003'')"
    by (simp add: iloc_def sample_good_row_def)
  from fact [of 0] have "iloc \<lparr>index = columns sample_df, vals = [vals sample_good_row, vals sample_long_row] ! 0\<rparr> 2
              = Inr (alipay_account (?out ! 0))"
    by simp
  then have b: "alipay_account (?out ! 0) = PyStr (ascii ''e@f.cn'')"
    by (simp add: iloc_def sample_good_row_def)
  from fact [of 1] have "iloc \<lparr>index = columns sample_df, vals = [vals sample_good_row, vals sample_long_row] ! 1\<rparr> 1
              = Inr (feedback_code (?out ! 1))"
    by simp
  then have c: "feedback_code (?out ! 1) = PyStr (ascii ''FB-0004'')"
    by (simp add: iloc_def sample_long_row_def)
  from fact [of 1] have "iloc \<lparr>index = columns sample_df, vals = [vals sample_good_row, vals sample_long_row] ! 1\<rparr> 2
              = Inr (alipay_account (?out ! 1))"
    by simp
  then have d: "alipay_account (?out ! 1) = PyInt 13800000000"
    by (simp add: iloc_def sample_long_row_def)
  from run a b c d show ?thesis
    by (intro exI [of _ ?out] exI [of _ w']) simp
qed


section \<open>Properties of the JSON file\<close>

subsection \<open>Decimal digits\<close>

lemma str_nat_digit: "n < 10 \<Longrightarrow> str_nat n = [48 + n]"
  by (subst str_nat.simps) simp

lemma str_nat_step: "10 \<le> n \<Longrightarrow> str_nat n = str_nat (n div 10) @ [48 + n mod 10]"
  by (subst str_nat.simps) simp

lemma str_nat_digits: "list_all is_digit (str_nat n)"
proof (induction n rule: str_nat.induct)
  case (1 n)
  show ?case
  proof (cases "n < 10")
    case True
    then show ?thesis by (simp add: str_nat_digit is_digit_def)
  next
    case False
    then have "list_all is_digit (str_nat (n div 10))" by (rule 1)
    moreover have "is_digit (48 + n mod 10)" by (simp add: is_digit_def)
    ultimately show ?thesis using False by (simp add: str_nat_step)
  qed
qed

lemma str_nat_not_Nil: "str_nat n \<noteq> []"
  by (cases "n < 10") (simp_all add: str_nat_digit str_nat_step)

lemma hd_str_nat: "0 < n \<Longrightarrow> hd (str_nat n) \<noteq> 48"
proof (induction n rule: str_nat.induct)
  case (1 n)
  show ?case
  proof (cases "n < 10")
    case True
    with 1(2) show ?thesis by (simp add: str_nat_digit)
  next
    case False
    then have "0 < n div 10" by simp
    with False have "hd (str_nat (n div 10)) \<noteq> 48" by (intro 1(1)) simp_all
    then show ?thesis using False by (simp add: str_nat_step str_nat_not_Nil)
  qed
qed

lemma nat_of_digits_snoc: "nat_of_digits (ds @ [d]) = 10 * nat_of_digits ds + (d - 48)"
  by (simp add: nat_of_digits_def)

lemma nat_of_digits_str_nat: "nat_of_digits (str_nat n) = n"
proof (induction n rule: str_nat.induct)
  case (1 n)
  show ?case
  proof (cases "n < 10")
    case True
    then show ?thesis by (simp add: str_nat_digit nat_of_digits_def)
  next
    case False
    then have "nat_of_digits (str_nat (n div 10)) = n div 10" by (rule 1)
    then show ?thesis using False by (simp add: str_nat_step nat_of_digits_snoc)
  qed
qed

subsection \<open>What may follow a number\<close>

lemma takeWhile_digit_end:
  "value_end rest \<Longrightarrow> takeWhile is_digit (s @ rest) = takeWhile is_digit s"
  by (induction s) (auto simp: value_end_def is_digit_def split: list.splits)

lemma dropWhile_digit_end:
  "value_end rest \<Longrightarrow> dropWhile is_digit (s @ rest) = dropWhile is_digit s @ rest"
  by (induction s) (auto simp: value_end_def is_digit_def split: list.splits)

lemma scan_sign_end:
  "value_end rest \<Longrightarrow> scan_sign (s @ rest) = (fst (scan_sign s), snd (scan_sign s) @ rest)"
  by (cases s) (auto simp: scan_sign_def value_end_def split: list.splits)

lemma scan_int_part_end:
  "value_end rest \<Longrightarrow>
     scan_int_part (s @ rest) = map_option (\<lambda>(ip, t). (ip, t @ rest)) (scan_int_part s)"
  by (cases s)
    (auto simp: scan_int_part_def value_end_def is_digit_def takeWhile_digit_end
      dropWhile_digit_end split: list.splits)

lemma scan_frac_end:
  "value_end rest \<Longrightarrow> scan_frac (s @ rest) = (fst (scan_frac s), snd (scan_frac s) @ rest)"
  by (cases s)
    (auto simp: scan_frac_def value_end_def is_digit_def takeWhile_digit_end
      dropWhile_digit_end split: list.splits)

lemma scan_exp_end:
  assumes ve: "value_end rest"
  shows "scan_exp (s @ rest) = (fst (scan_exp s), snd (scan_exp s) @ rest)"
proof (cases s)
  case Nil
  with ve show ?thesis
    by (auto simp: scan_exp_def value_end_def split: list.splits)
next
  case (Cons e r)
  show ?thesis
  proof (cases r)
    case Nil
    with Cons ve show ?thesis
      by (auto simp: scan_exp_def value_end_def is_digit_def split: list.splits)
  next
    case (Cons c t)
    with \<open>s = e # r\<close> ve show ?thesis
      by (auto simp: scan_exp_def takeWhile_digit_end dropWhile_digit_end Let_def)
  qed
qed

lemma scan_number_end:
  assumes "value_end rest"
  shows "scan_number (s @ rest) = map_option (\<lambda>(v, t). (v, t @ rest)) (scan_number s)"
proof -
  obtain sg s1 where sg: "scan_sign s = (sg, s1)" by (cases "scan_sign s")
  then have sg': "scan_sign (s @ rest) = (sg, s1 @ rest)"
    using scan_sign_end [OF assms, of s] by simp
  show ?thesis
  proof (cases "scan_int_part s1")
    case None
    then have "scan_int_part (s1 @ rest) = None"
      using scan_int_part_end [OF assms, of s1] by simp
    with None sg sg' show ?thesis by (simp add: scan_number_def)
  next
    case (Some a)
    obtain ip s2 where a: "a = (ip, s2)" by (cases a)
    have ip: "scan_int_part (s1 @ rest) = Some (ip, s2 @ rest)"
      using scan_int_part_end [OF assms, of s1] Some a by simp
    obtain fr s3 where fr: "scan_frac s2 = (fr, s3)" by (cases "scan_frac s2")
    then have fr': "scan_frac (s2 @ rest) = (fr, s3 @ rest)"
      using scan_frac_end [OF assms, of s2] by simp
    obtain ex s4 where ex: "scan_exp s3 = (ex, s4)" by (cases "scan_exp s3")
    then have ex': "scan_exp (s3 @ rest) = (ex, s4 @ rest)"
      using scan_exp_end [OF assms, of s3] by simp
    show ?thesis
      using sg sg' Some a ip fr fr' ex ex' by (simp add: scan_number_def)
  qed
qed

lemma scan_int_part_str_nat: "scan_int_part (str_nat n) = Some (str_nat n, [])"
proof (cases "n = 0")
  case True
  then show ?thesis by (simp add: str_nat_digit scan_int_part_def)
next
  case False
  obtain d ds where s: "str_nat n = d # ds"
    using str_nat_not_Nil [of n] by (cases "str_nat n") auto
  have "list_all is_digit (d # ds)" using str_nat_digits [of n] s by simp
  then have d: "is_digit d" and ds: "list_all is_digit ds" by simp_all
  have "d \<noteq> 48" using hd_str_nat [of n] False s by simp
  moreover have "takeWhile is_digit ds = ds" using ds by (simp add: list_all_iff)
  moreover have "dropWhile is_digit ds = []" using ds by (simp add: list_all_iff)
  ultimately show ?thesis using d by (simp add: s scan_int_part_def)
qed

lemma scan_number_str_int: "scan_number (str_int i) = Some (VInt i, [])"
proof -
  have nat: "scan_number (str_nat n) = Some (VInt (int n), [])" for n
  proof -
    have "hd (str_nat n) \<noteq> 45"
      using str_nat_digits [of n] str_nat_not_Nil [of n]
      by (cases "str_nat n") (auto simp: is_digit_def)
    then have "scan_sign (str_nat n) = ([], str_nat n)"
      using str_nat_not_Nil [of n] by (cases "str_nat n") (auto simp: scan_sign_def)
    then show ?thesis
      by (simp add: scan_number_def scan_int_part_str_nat scan_frac_def scan_exp_def
          nat_of_digits_str_nat)
  qed
  show ?thesis
  proof (cases "i < 0")
    case False
    then show ?thesis using nat [of "nat i"] by (simp add: str_int_def)
  next
    case True
    have "scan_sign (45 # str_nat (nat (- i))) = ([45], str_nat (nat (- i)))"
      by (simp add: scan_sign_def)
    then show ?thesis
      using True
      by (simp add: str_int_def scan_number_def scan_int_part_str_nat scan_frac_def
          scan_exp_def nat_of_digits_str_nat)
  qed
qed

lemma scan_number_first:
  assumes "scan_number s = Some r"
  shows "\<exists>c t. s = c # t \<and> (c = 45 \<or> is_digit c)"
proof (cases s)
  case Nil
  with assms show ?thesis
    by (simp add: scan_number_def scan_sign_def scan_int_part_def)
next
  case (Cons c t)
  with assms show ?thesis
    by (cases "c = 45")
      (auto simp: scan_number_def scan_sign_def scan_int_part_def is_digit_def
        split: if_splits option.splits list.splits)
qed

subsection \<open>Strings\<close>

lemma hex_value_hex_digit: "d < 16 \<Longrightarrow> hex_value (hex_digit d) = Some d"
  by (auto simp: hex_value_def hex_digit_def)

lemma decode_uXXXX_control:
  "c < 32 \<Longrightarrow> decode_uXXXX (48 # 48 # hex_digit (c div 16) # hex_digit (c mod 16) # t) = Some c"
proof -
  assume c: "c < 32"
  then have "c div 16 < 16" by simp
  then have a: "hex_value (hex_digit (c div 16)) = Some (c div 16)" by (rule hex_value_hex_digit)
  have b: "hex_value (hex_digit (c mod 16)) = Some (c mod 16)"
    by (rule hex_value_hex_digit) simp
  have z: "hex_value 48 = Some 0" by (simp add: hex_value_def)
  show ?thesis by (simp add: decode_uXXXX_def a b z)
qed

lemma scan_string_escape_char:
  "scan_string (escape_char c @ s) = map_option (\<lambda>(x, t). (c # x, t)) (scan_string s)"
proof (cases "c < 32 \<and> c \<notin> {8, 9, 10, 12, 13}")
  case True
  then have c: "c < 32" by simp
  have e: "escape_char c = [92, 117, 48, 48, hex_digit (c div 16), hex_digit (c mod 16)]"
    using True by (auto simp: escape_char_def)
  show ?thesis
    using c by (simp add: e decode_uXXXX_control)
next
  case False
  then show ?thesis
    by (auto simp: escape_char_def unescape_def)
qed

lemma scan_string_escaped:
  "scan_string (concat (map escape_char s) @ 34 # rest) = Some (s, rest)"
  by (induction s) (simp_all add: scan_string_escape_char)

lemma scan_once_string:
  "scan_once (Suc n) (encode_basestring s @ rest) = Some (VStr s, rest)"
  by (simp add: encode_basestring_def scan_string_escaped)

subsection \<open>White space\<close>

lemma skip_ws_token: "starts_token s \<Longrightarrow> skip_ws s = s"
  by (cases s) (simp_all add: starts_token_def skip_ws_def)

lemma skip_ws_newline_indent: "starts_token s \<Longrightarrow> skip_ws (newline_indent level @ s) = s"
proof -
  assume s: "starts_token s"
  have "dropWhile is_ws (replicate k 32 @ s) = s" for k
    using s by (induction k) (simp_all add: is_ws_def skip_ws_token [unfolded skip_ws_def])
  then show ?thesis
    by (simp add: skip_ws_def newline_indent_def is_ws_def)
qed

lemma skip_ws_Nil: "skip_ws [] = []"
  by (simp add: skip_ws_def)

subsection \<open>Values that are not containers\<close>

lemma scan_once_number:
  assumes "scan_number s = Some (v, [])" and "value_end rest"
  shows "scan_once (Suc n) (s @ rest) = Some (v, rest)"
proof -
  from scan_number_first [OF assms(1)] obtain c t where
    s: "s = c # t" and c: "c = 45 \<or> is_digit c" by blast
  have num: "scan_number (c # t @ rest) = Some (v, rest)"
    using scan_number_end [OF assms(2), of s] assms(1) s by simp
  from c show ?thesis
    by (auto simp: s num is_digit_def ascii_def)
qed

lemma scan_once_special:
  "scan_once (Suc n) (ascii ''NaN'' @ rest) = Some (VFloat (ascii ''nan''), rest)"
  "scan_once (Suc n) (ascii ''Infinity'' @ rest) = Some (VFloat (ascii ''inf''), rest)"
  "scan_once (Suc n) (ascii ''-Infinity'' @ rest) = Some (VFloat (ascii ''-inf''), rest)"
  by (simp_all add: ascii_def scan_number_def scan_sign_def scan_int_part_def is_digit_def)

lemma scan_once_float:
  assumes "float_text r" and "value_end rest"
  shows "scan_once (Suc n) (floatstr r @ rest) = Some (VFloat r, rest)"
proof (cases "r = ascii ''nan'' \<or> r = ascii ''inf'' \<or> r = ascii ''-inf''")
  case True
  then show ?thesis
    using scan_once_special [of n rest] by (auto simp: floatstr_def ascii_def)
next
  case False
  with assms(1) have "scan_number r = Some (VFloat r, [])" by (simp add: float_text_def)
  then have "scan_once (Suc n) (r @ rest) = Some (VFloat r, rest)"
    using assms(2) by (rule scan_once_number)
  with False show ?thesis by (simp add: floatstr_def)
qed

lemma scan_once_literal:
  "scan_once (Suc n) (ascii ''null'' @ rest) = Some (VNone, rest)"
  "scan_once (Suc n) (ascii ''true'' @ rest) = Some (VBool True, rest)"
  "scan_once (Suc n) (ascii ''false'' @ rest) = Some (VBool False, rest)"
  by (simp_all add: ascii_def)

lemma scan_once_int:
  "value_end rest \<Longrightarrow> scan_once (Suc n) (str_int i @ rest) = Some (VInt i, rest)"
  using scan_number_str_int by (rule scan_once_number)

subsection \<open>The first character of an encoded value\<close>

lemma opens_value_append: "opens_value s \<Longrightarrow> opens_value (s @ t)"
  by (cases s) (simp_all add: opens_value_def)

lemma opens_value_token: "opens_value s \<Longrightarrow> starts_token s"
  by (cases s) (simp_all add: opens_value_def starts_token_def)

lemma opens_value_number:
  "scan_number s = Some r \<Longrightarrow> opens_value s"
  using scan_number_first [of s r] by (auto simp: opens_value_def is_digit_def is_ws_def)

lemma opens_value_string: "opens_value (encode_basestring s @ t)"
  by (simp add: opens_value_def encode_basestring_def is_ws_def)

lemma opens_value_dumps:
  assumes "encodable v" and "floats_ok v"
  shows "opens_value (dumps_at level v)"
proof (cases v)
  case (VFloat r)
  show ?thesis
  proof (cases "r = ascii ''nan'' \<or> r = ascii ''inf'' \<or> r = ascii ''-inf''")
    case True
    then show ?thesis
      by (auto simp: VFloat floatstr_def ascii_def opens_value_def is_ws_def)
  next
    case False
    with assms(2) VFloat have "scan_number r = Some (VFloat r, [])"
      by (simp add: float_text_def)
    then have "opens_value r" by (rule opens_value_number)
    with False show ?thesis by (simp add: VFloat floatstr_def)
  qed
next
  case (VInt i)
  show ?thesis
    using opens_value_number [OF scan_number_str_int] by (simp add: VInt)
next
  case (VStr s)
  show ?thesis
    using opens_value_string [of s "[]"] by (simp add: VStr)
next
  case (VObj r)
  with assms show ?thesis by simp
qed (simp_all add: opens_value_def is_ws_def ascii_def)

subsection \<open>Arrays and objects\<close>

lemma join_Cons: "xs \<noteq> [] \<Longrightarrow> join sep (x # xs) = x @ sep @ join sep xs"
  by (cases xs) simp_all

lemma opens_value_join:
  assumes "ts \<noteq> []" and "opens_value (hd ts)"
  shows "opens_value (join sep ts @ rest)"
proof -
  obtain x xs where ts: "ts = x # xs" using assms(1) by (cases ts) auto
  with assms(2) have "opens_value x" by simp
  then show ?thesis
    by (cases xs) (simp_all add: ts opens_value_append)
qed

lemma value_end_sep: "value_end (44 # s)" "value_end (newline_indent level @ s)"
  by (simp_all add: value_end_def newline_indent_def)

lemma length_newline_indent: "length (newline_indent level) = Suc (2 * level)"
  by (simp add: newline_indent_def)

lemma scan_array_join:
  assumes "vs \<noteq> []"
    and "\<forall>x \<in> set vs. encodable x \<and> floats_ok x"
    and "\<forall>x \<in> set vs. \<forall>n rest. value_end rest \<longrightarrow>
           2 * length (dumps_at level x @ rest) + 1 \<le> n \<longrightarrow>
           scan_once n (dumps_at level x @ rest) = Some (decoded x, rest)"
    and "2 * length (join (44 # newline_indent level) (map (dumps_at level) vs) @
           newline_indent outer @ 93 # rest) + 2 \<le> n"
  shows "scan_array n (join (44 # newline_indent level) (map (dumps_at level) vs) @
           newline_indent outer @ 93 # rest) = Some (map decoded vs, rest)"
  using assms
proof (induction vs arbitrary: n rule: list_nonempty_induct)
  case (single x)
  let ?R = "newline_indent outer @ 93 # rest"
  from single(3) obtain m where n: "n = Suc m" by (cases n) auto
  have fuel: "2 * length (dumps_at level x @ ?R) + 1 \<le> m"
    using single(3) n by simp
  have "scan_once m (dumps_at level x @ ?R) = Some (decoded x, ?R)"
    using single(2) value_end_sep(2) [of outer "93 # rest"] fuel by simp
  moreover have "skip_ws ?R = 93 # rest"
    by (rule skip_ws_newline_indent) (simp add: starts_token_def is_ws_def)
  ultimately show ?case by (simp add: n)
next
  case (cons x xs)
  let ?sep = "44 # newline_indent level"
  let ?tail = "join ?sep (map (dumps_at level) xs) @ newline_indent outer @ 93 # rest"
  let ?R = "?sep @ ?tail"
  have whole: "join ?sep (map (dumps_at level) (x # xs)) @ newline_indent outer @ 93 # rest
               = dumps_at level x @ ?R"
    using cons(1) by (simp add: join_Cons)
  from cons(5) obtain m where n: "n = Suc m" by (cases n) auto
  have fuel: "2 * length (dumps_at level x @ ?R) + 1 \<le> m"
    using cons(5) n unfolding whole by simp
  have one: "scan_once m (dumps_at level x @ ?R) = Some (decoded x, ?R)"
    using cons(4) value_end_sep(1) [of "newline_indent level @ ?tail"] fuel by simp
  have "opens_value (hd (map (dumps_at level) xs))"
    using cons(1, 3) by (cases xs) (simp_all add: opens_value_dumps)
  then have "opens_value ?tail"
    using cons(1) by (intro opens_value_join) simp_all
  then have ws: "skip_ws (newline_indent level @ ?tail) = ?tail"
    by (intro skip_ws_newline_indent opens_value_token)
  have comma: "skip_ws ?R = ?R"
    by (rule skip_ws_token) (simp add: starts_token_def is_ws_def)
  have fuel2: "2 * length ?tail + 2 \<le> m"
    using fuel by (simp add: length_newline_indent)
  have rest: "scan_array m ?tail = Some (map decoded xs, rest)"
    using cons(3, 4) fuel2 by (intro cons(2)) simp_all
  show ?case
    unfolding whole n using one comma ws rest by simp
qed

lemma scan_object_join:
  assumes "kvs \<noteq> []"
    and "\<forall>kv \<in> set kvs. encodable (snd kv) \<and> floats_ok (snd kv)"
    and "\<forall>kv \<in> set kvs. \<forall>n rest. value_end rest \<longrightarrow>
           2 * length (dumps_at level (snd kv) @ rest) + 1 \<le> n \<longrightarrow>
           scan_once n (dumps_at level (snd kv) @ rest) = Some (decoded (snd kv), rest)"
    and "2 * length (join (44 # newline_indent level)
             (map (\<lambda>kv. encode_basestring (key_text (fst kv)) @ [58, 32] @
                          dumps_at level (snd kv)) kvs) @
           newline_indent outer @ 125 # rest) + 2 \<le> n"
  shows "scan_object n (join (44 # newline_indent level)
             (map (\<lambda>kv. encode_basestring (key_text (fst kv)) @ [58, 32] @
                          dumps_at level (snd kv)) kvs) @
           newline_indent outer @ 125 # rest)
         = Some (map (\<lambda>kv. (VStr (key_text (fst kv)), decoded (snd kv))) kvs, rest)"
  using assms
proof (induction kvs arbitrary: n rule: list_nonempty_induct)
  case (single kv)
  let ?R = "newline_indent outer @ 125 # rest"
  let ?k = "key_text (fst kv)"
  from single(3) obtain m where n: "n = Suc m" by (cases n) auto
  have fuel: "2 * length (dumps_at level (snd kv) @ ?R) + 1 \<le> m"
    using single(3) n by simp
  have val: "scan_once m (dumps_at level (snd kv) @ ?R) = Some (decoded (snd kv), ?R)"
    using single(2) value_end_sep(2) [of outer "125 # rest"] fuel by simp
  have close: "skip_ws ?R = 125 # rest"
    by (rule skip_ws_newline_indent) (simp add: starts_token_def is_ws_def)
  have key: "scan_string (concat (map escape_char ?k) @ 34 # 58 # 32 # dumps_at level (snd kv) @ ?R)
               = Some (?k, 58 # 32 # dumps_at level (snd kv) @ ?R)"
    by (rule scan_string_escaped)
  have colon: "skip_ws (58 # 32 # dumps_at level (snd kv) @ ?R)
               = 58 # 32 # dumps_at level (snd kv) @ ?R"
    by (rule skip_ws_token) (simp add: starts_token_def is_ws_def)
  have "opens_value (dumps_at level (snd kv) @ ?R)"
    using single(1) by (intro opens_value_append opens_value_dumps) simp_all
  then have sp: "skip_ws (32 # dumps_at level (snd kv) @ ?R) = dumps_at level (snd kv) @ ?R"
    using skip_ws_token [OF opens_value_token] by (simp add: skip_ws_def is_ws_def)
  show ?case
    using key colon sp val close by (simp add: n encode_basestring_def)
next
  case (cons kv kvs)
  let ?sep = "44 # newline_indent level"
  let ?member = "\<lambda>kv. encode_basestring (key_text (fst kv)) @ [58, 32] @ dumps_at level (snd kv)"
  let ?tail = "join ?sep (map ?member kvs) @ newline_indent outer @ 125 # rest"
  let ?R = "?sep @ ?tail"
  let ?k = "key_text (fst kv)"
  have whole: "join ?sep (map ?member (kv # kvs)) @ newline_indent outer @ 125 # rest
               = ?member kv @ ?R"
    using cons(1) by (simp add: join_Cons)
  from cons(5) obtain m where n: "n = Suc m" by (cases n) auto
  have fuel: "2 * length (dumps_at level (snd kv) @ ?R) + 1 \<le> m"
    using cons(5) n unfolding whole by simp
  have val: "scan_once m (dumps_at level (snd kv) @ ?R) = Some (decoded (snd kv), ?R)"
    using cons(4) value_end_sep(1) [of "newline_indent level @ ?tail"] fuel by simp
  have key: "scan_string (concat (map escape_char ?k) @ 34 # 58 # 32 # dumps_at level (snd kv) @ ?R)
               = Some (?k, 58 # 32 # dumps_at level (snd kv) @ ?R)"
    by (rule scan_string_escaped)
  have colon: "skip_ws (58 # 32 # dumps_at level (snd kv) @ ?R)
               = 58 # 32 # dumps_at level (snd kv) @ ?R"
    by (rule skip_ws_token) (simp add: starts_token_def is_ws_def)
  have "opens_value (dumps_at level (snd kv) @ ?R)"
    using cons(3) by (intro opens_value_append opens_value_dumps) simp_all
  then have sp: "skip_ws (32 # dumps_at level (snd kv) @ ?R) = dumps_at level (snd kv) @ ?R"
    using skip_ws_token [OF opens_value_token] by (simp add: skip_ws_def is_ws_def)
  have "opens_value (hd (map ?member kvs))"
    using cons(1) by (cases kvs) (simp_all add: opens_value_string)
  then have "opens_value ?tail"
    using cons(1) by (intro opens_value_join) simp_all
  then have ws: "skip_ws (newline_indent level @ ?tail) = ?tail"
    by (intro skip_ws_newline_indent opens_value_token)
  have comma: "skip_ws ?R = ?R"
    by (rule skip_ws_token) (simp add: starts_token_def is_ws_def)
  have fuel2: "2 * length ?tail + 2 \<le> m"
    using fuel by (simp add: length_newline_indent)
  have rest: "scan_object m ?tail
                = Some (map (\<lambda>kv. (VStr (key_text (fst kv)), decoded (snd kv))) kvs, rest)"
    using cons(3, 4) fuel2 by (intro cons(2)) simp_all
  show ?case
    unfolding whole n using key colon sp val comma ws rest
    by (simp add: encode_basestring_def)
qed

subsection \<open>Reading back what was written\<close>

lemma scan_once_dumps:
  "encodable v \<Longrightarrow> floats_ok v \<Longrightarrow> value_end rest \<Longrightarrow>
   2 * length (dumps_at level v @ rest) + 1 \<le> n \<Longrightarrow>
   scan_once n (dumps_at level v @ rest) = Some (decoded v, rest)"
proof (induction v arbitrary: n level rest rule: encodable.induct)
  case (1 r)
  then show ?case by simp
next
  case (2 vs)
  from 2(5) obtain m where n: "n = Suc m" by (cases n) auto
  show ?case
  proof (cases "vs = []")
    case True
    then show ?thesis by (simp add: n ascii_def skip_ws_def is_ws_def)
  next
    case False
    let ?items = "join (44 # newline_indent (Suc level)) (map (dumps_at (Suc level)) vs) @
                    newline_indent level @ 93 # rest"
    have ok: "\<forall>x \<in> set vs. encodable x \<and> floats_ok x"
      using 2(2, 3) by (simp add: list_all_iff)
    have each: "\<forall>x \<in> set vs. \<forall>n rest. value_end rest \<longrightarrow>
           2 * length (dumps_at (Suc level) x @ rest) + 1 \<le> n \<longrightarrow>
           scan_once n (dumps_at (Suc level) x @ rest) = Some (decoded x, rest)"
      using 2(1) ok by blast
    have fuel: "2 * length ?items + 2 \<le> m"
      using 2(5) False by (simp add: n length_newline_indent)
    have arr: "scan_array m ?items = Some (map decoded vs, rest)"
      using False ok each fuel by (rule scan_array_join)
    have "opens_value (hd (map (dumps_at (Suc level)) vs))"
      using False ok by (cases vs) (simp_all add: opens_value_dumps)
    then have op: "opens_value ?items"
      using False by (intro opens_value_join) simp_all
    then have ws: "skip_ws (newline_indent (Suc level) @ ?items) = ?items"
      by (intro skip_ws_newline_indent opens_value_token)
    from op obtain d t where dt: "?items = d # t" and d: "d \<noteq> 93"
      by (cases ?items) (auto simp: opens_value_def)
    have sk: "skip_ws (newline_indent (Suc level) @ ?items) = d # t"
      using ws dt by simp
    have "scan_array m (d # t) = Some (map decoded vs, rest)"
      using arr dt by simp
    then show ?thesis
      using False sk d by (simp add: n)
  qed
next
  case (3 kvs)
  from 3(5) obtain m where n: "n = Suc m" by (cases n) auto
  show ?case
  proof (cases "kvs = []")
    case True
    then show ?thesis by (simp add: n ascii_def skip_ws_def is_ws_def dict_of_pairs_def)
  next
    case False
    let ?members = "join (44 # newline_indent (Suc level))
                      (map (\<lambda>kv. encode_basestring (key_text (fst kv)) @ [58, 32] @
                                   dumps_at (Suc level) (snd kv)) kvs) @
                    newline_indent level @ 125 # rest"
    have ok: "\<forall>kv \<in> set kvs. encodable (snd kv) \<and> floats_ok (snd kv)"
      using 3(2, 3) by (simp add: list_all_iff)
    have each: "\<forall>kv \<in> set kvs. \<forall>n rest. value_end rest \<longrightarrow>
           2 * length (dumps_at (Suc level) (snd kv) @ rest) + 1 \<le> n \<longrightarrow>
           scan_once n (dumps_at (Suc level) (snd kv) @ rest) = Some (decoded (snd kv), rest)"
      using 3(1) ok by blast
    have fuel: "2 * length ?members + 2 \<le> m"
      using 3(5) False by (simp add: n length_newline_indent)
    have obj: "scan_object m ?members
                 = Some (map (\<lambda>kv. (VStr (key_text (fst kv)), decoded (snd kv))) kvs, rest)"
      using False ok each fuel by (rule scan_object_join)
    have "opens_value (hd (map (\<lambda>kv. encode_basestring (key_text (fst kv)) @ [58, 32] @
                                   dumps_at (Suc level) (snd kv)) kvs))"
      using False by (cases kvs) (simp_all add: opens_value_string)
    then have op: "opens_value ?members"
      using False by (intro opens_value_join) simp_all
    then have ws: "skip_ws (newline_indent (Suc level) @ ?members) = ?members"
      by (intro skip_ws_newline_indent opens_value_token)
    from op obtain d t where dt: "?members = d # t" and d: "d \<noteq> 125"
      by (cases ?members) (auto simp: opens_value_def)
    have sk: "skip_ws (newline_indent (Suc level) @ ?members) = d # t"
      using ws dt by simp
    have "scan_object m (d # t)
            = Some (map (\<lambda>kv. (VStr (key_text (fst kv)), decoded (snd kv))) kvs, rest)"
      using obj dt by simp
    then show ?thesis
      using False sk d by (simp add: n)
  qed
next
  case 4
  then obtain m where "n = Suc m" by (cases n) auto
  then show ?case using scan_once_literal(1) by simp
next
  case (5 b)
  then obtain m where "n = Suc m" by (cases n) auto
  then show ?case using scan_once_literal(2, 3) by simp
next
  case (6 i)
  then obtain m where "n = Suc m" by (cases n) auto
  then show ?case using scan_once_int 6(3) by simp
next
  case (7 r)
  then obtain m where "n = Suc m" by (cases n) auto
  then show ?case using scan_once_float 7(2, 3) by simp
next
  case (8 s)
  then obtain m where "n = Suc m" by (cases n) auto
  then show ?case using scan_once_string by simp
qed

lemma json_loads_dumps:
  assumes "encodable v" and "floats_ok v"
  shows "json_loads (dumps_at 0 v) = Some (decoded v)"
proof -
  have "opens_value (dumps_at 0 v)" using assms by (rule opens_value_dumps)
  then have ws: "skip_ws (dumps_at 0 v) = dumps_at 0 v"
    by (intro skip_ws_token opens_value_token)
  have "scan_once (2 * length (dumps_at 0 v) + 1) (dumps_at 0 v @ []) = Some (decoded v, [])"
    using assms by (intro scan_once_dumps) (simp_all add: value_end_def)
  then show ?thesis
    by (simp add: json_loads_def ws skip_ws_Nil)
qed

subsection \<open>The payments as values\<close>

lemma key_ok_cell_value: "key_ok (cell_value c) = json_serializable c"
  by (cases c) simp_all

lemma encodable_cell_value: "encodable (cell_value c) = json_serializable c"
  by (cases c) simp_all

lemma encodable_payment_dict: "encodable (payment_dict p) = dumpable p"
  by (simp add: payment_dict_def dumpable_def encodable_cell_value key_ok_cell_value
      list_all_iff split_def)

lemma encodable_payment_list_value:
  "encodable (payment_list_value l) = list_all dumpable l"
  by (simp add: payment_list_value_def list_all_iff encodable_payment_dict)

lemma json_representable_serializable: "json_representable c \<Longrightarrow> json_serializable c"
  by (cases c) simp_all

lemma floats_ok_cell_value: "json_representable c \<Longrightarrow> floats_ok (cell_value c)"
  by (cases c) (simp_all add: float_text_def)

lemma decoded_cell_value: "decoded (cell_value c) = cell_value c"
  by (cases c) simp_all

lemma str_int_3: "str_int 3 = [51]"
  by (simp add: str_int_def str_nat_digit)

lemma float_repr_3: "float_repr 3 = ascii ''3.0''"
  by (simp add: float_repr_def str_int_3 ascii_def)

lemma float_text_3: "float_text (ascii ''3.0'')"
  by (simp add: float_text_def ascii_def scan_number_def scan_sign_def scan_int_part_def
      scan_frac_def scan_exp_def is_digit_def)

lemma update_new_key: "k \<notin> fst ` set al \<Longrightarrow> AList.update k v al = al @ [(k, v)]"
  by (induction al) auto

lemma fold_update_distinct:
  "distinct (map fst (acc @ ps)) \<Longrightarrow>
     fold (\<lambda>(k, v) d. AList.update k v d) ps acc = acc @ ps"
proof (induction ps arbitrary: acc)
  case Nil
  then show ?case by simp
next
  case (Cons p ps)
  obtain k v where p: "p = (k, v)" by (cases p)
  from Cons.prems have new: "k \<notin> fst ` set acc" by (auto simp: p)
  from Cons.prems have "distinct (map fst ((acc @ [(k, v)]) @ ps))" by (simp add: p)
  then have "fold (\<lambda>(k, v) d. AList.update k v d) ps (acc @ [(k, v)]) = (acc @ [(k, v)]) @ ps"
    by (rule Cons.IH)
  then show ?case by (simp add: p update_new_key [OF new])
qed

lemma dict_of_pairs_distinct: "distinct (map fst ps) \<Longrightarrow> dict_of_pairs ps = ps"
  using fold_update_distinct [of "[]" ps] by (simp add: dict_of_pairs_def)

lemma distinct_fold_update:
  "distinct (map fst acc) \<Longrightarrow> distinct (map fst (fold (\<lambda>(k, v) d. AList.update k v d) ps acc))"
  by (induction ps arbitrary: acc) (auto simp: distinct_update)

lemma distinct_to_dict: "distinct (map fst (to_dict row))"
  using distinct_fold_update [of "[]"] by (simp add: to_dict_def)

lemma string_key: "is_string k \<Longrightarrow> VStr (key_text (cell_value k)) = cell_value k"
  by (cases k) simp_all

lemma cell_value_string_inj:
  "is_string a \<Longrightarrow> is_string b \<Longrightarrow> cell_value a = cell_value b \<Longrightarrow> a = b"
  by (cases a; cases b) simp_all

lemma decoded_feedback_data:
  assumes "list_all (\<lambda>kv. is_string (fst kv)) d" and "distinct (map fst d)"
  shows "decoded (VDict (map (\<lambda>kv. (cell_value (fst kv), cell_value (snd kv))) d))
           = VDict (map (\<lambda>kv. (cell_value (fst kv), cell_value (snd kv))) d)"
proof -
  let ?ps = "map (\<lambda>kv. (cell_value (fst kv), cell_value (snd kv))) d"
  have same: "map (\<lambda>kv. (VStr (key_text (fst kv)), decoded (snd kv))) ?ps = ?ps"
    using assms(1) by (simp add: list_all_iff string_key decoded_cell_value)
  have "inj_on cell_value (set (map fst d))"
    using assms(1) by (auto simp: inj_on_def list_all_iff intro: cell_value_string_inj)
  then have "distinct (map cell_value (map fst d))"
    using assms(2) distinct_map [of cell_value "map fst d"] by blast
  then have "distinct (map fst ?ps)" by (simp add: comp_def)
  then have "dict_of_pairs ?ps = ?ps" by (rule dict_of_pairs_distinct)
  then show ?thesis by (simp add: same del: map_map)
qed

lemma decoded_payment_dict:
  assumes "labels_are_strings p" and "distinct (map fst (feedback_data p))"
  shows "decoded (payment_dict p) = payment_dict p"
proof -
  define fdv where
    "fdv = VDict (map (\<lambda>kv. (cell_value (fst kv), cell_value (snd kv))) (feedback_data p))"
  let ?ps = "[(VStr (ascii ''id''), VStr (id_uuid p)),
        (VStr (ascii ''feedback_code''), cell_value (feedback_code p)),
        (VStr (ascii ''alipay_account''), cell_value (alipay_account p)),
        (VStr (ascii ''amount''), VFloat (float_repr (amount p))),
        (VStr (ascii ''quality_score''), VInt (quality_score p)),
        (VStr (ascii ''created_at''), VStr (created_at p)),
        (VStr (ascii ''payment_status''), VStr (payment_status p)),
        (VStr (ascii ''feedback_data''), fdv)]"
  have fd: "decoded fdv = fdv"
    unfolding fdv_def using assms
    by (intro decoded_feedback_data) (simp_all add: labels_are_strings_def)
  have pd: "payment_dict p = VDict ?ps"
    by (simp add: payment_dict_def fdv_def)
  have "decoded (VDict ?ps) = VDict (dict_of_pairs ?ps)"
    by (simp add: decoded_cell_value fd)
  also have "dict_of_pairs ?ps = ?ps"
    by (rule dict_of_pairs_distinct) (simp add: ascii_def)
  finally show ?thesis by (simp only: pd)
qed

lemma floats_ok_payment_dict:
  assumes "cells_representable p" and "amount p = 3"
  shows "floats_ok (payment_dict p)"
  using assms
  by (simp add: payment_dict_def cells_representable_def floats_ok_cell_value float_repr_3
      float_text_3 list_all_iff)

subsection \<open>Keys after decoding\<close>

lemma set_dict_of_pairs: "set (dict_of_pairs ps) \<subseteq> set ps"
  using set_fold_update [of ps "[]"] by (simp add: dict_of_pairs_def)

lemma string_keys_decoded: "string_keys (decoded v)"
proof (induction v rule: decoded.induct)
  case (1 vs)
  then show ?case by (simp add: list_all_iff)
next
  case (2 kvs)
  have "(case fst kv of VStr s \<Rightarrow> True | _ \<Rightarrow> False) \<and> string_keys (snd kv)"
    if "kv \<in> set (dict_of_pairs (map (\<lambda>kv. (VStr (key_text (fst kv)), decoded (snd kv))) kvs))"
    for kv
  proof -
    from that set_dict_of_pairs
    have "kv \<in> set (map (\<lambda>kv. (VStr (key_text (fst kv)), decoded (snd kv))) kvs)" by blast
    then obtain x where "x \<in> set kvs" and "kv = (VStr (key_text (fst x)), decoded (snd x))"
      by auto
    with 2 show ?thesis by simp
  qed
  then show ?case by (simp add: list_all_iff)
qed simp_all

subsection \<open>The sample tables, written and read\<close>

lemma plain_row_score: "assess_feedback_quality plain_row = Inr 3"
  by (simp add: assess_feedback_quality_def plain_row_def iloc_def ascii_def nan_def
      lower_def lower_cp_def suggestion_words_def)

lemma plain_row_reference: "reference_score (vals plain_row) = 3"
proof -
  have "8 \<le> length (vals plain_row)" by (simp add: plain_row_def)
  then have "assess_feedback_quality plain_row = Inr (reference_score (vals plain_row))"
    by (rule assess_wide)
  with plain_row_score show ?thesis by simp
qed

lemma plain_row_qualifies: "qualifies cols (vals plain_row)"
proof -
  have "8 \<le> length (vals plain_row)" by (simp add: plain_row_def)
  then show ?thesis by (simp add: qualifies_wide plain_row_reference)
qed

lemma blank_row_not_qualifies: "\<not> qualifies cols (vals sample_blank_row)"
proof -
  have w: "8 \<le> length (vals sample_blank_row)" by (simp add: sample_blank_row_def)
  then have "assess_feedback_quality sample_blank_row = Inr (reference_score (vals sample_blank_row))"
    by (rule assess_wide)
  with sample_blank_row_score have "reference_score (vals sample_blank_row) = 1" by simp
  with w show ?thesis by (simp add: qualifies_wide)
qed

lemma plain_df_run:
  "\<exists>w'. process_questionnaire_responses plain_df sample_world = Inr (plain_payment_list, w')"
proof -
  have rows_ok: "\<forall>r \<in> set (rows plain_df). 8 \<le> length r \<and> list_all json_serializable r"
    by (simp add: plain_df_def plain_row_def sample_blank_row_def)
  have cols_ok: "list_all json_serializable (columns plain_df)"
    by (simp add: plain_df_def sample_columns_def)
  have "expected_payment_list plain_df sample_world = plain_payment_list"
    by (simp add: expected_payment_list_def plain_df_def plain_payment_list_def
        plain_row_qualifies blank_row_not_qualifies)
  with process_returns [OF rows_ok cols_ok, of sample_world] show ?thesis by simp
qed

lemma numbered_df_run:
  "\<exists>w'. process_questionnaire_responses numbered_df sample_world
           = Inr (numbered_payment_list, w')"
proof -
  have rows_ok: "\<forall>r \<in> set (rows numbered_df). 8 \<le> length r \<and> list_all json_serializable r"
    by (simp add: numbered_df_def plain_row_def)
  have cols_ok: "list_all json_serializable (columns numbered_df)"
    by (simp add: numbered_df_def numbered_columns_def)
  have "expected_payment_list numbered_df sample_world = numbered_payment_list"
    by (simp add: expected_payment_list_def numbered_df_def numbered_payment_list_def
        plain_row_qualifies)
  with process_returns [OF rows_ok cols_ok, of sample_world] show ?thesis by simp
qed

lemma float_4_5: "scan_number (ascii ''4.5'') = Some (VFloat (ascii ''4.5''), [])"
  by (simp add: ascii_def scan_number_def scan_sign_def scan_int_part_def
      scan_frac_def scan_exp_def is_digit_def)

lemma plain_feedback_data:
  "feedback_data (payment_for w sample_columns (i, vals plain_row))
     = zip sample_columns (vals plain_row)"
  by (simp add: payment_for_def make_payment_info_def to_dict_def sample_columns_def
      plain_row_def ascii_def)

lemma numbered_feedback_data:
  "feedback_data (payment_for w numbered_columns (i, vals plain_row))
     = zip numbered_columns (vals plain_row)"
  by (simp add: payment_for_def make_payment_info_def to_dict_def numbered_columns_def
      plain_row_def ascii_def)

lemma plain_cells_representable: "list_all cells_representable plain_payment_list"
  by (simp add: plain_payment_list_def cells_representable_def plain_feedback_data)
    (simp add: payment_for_def make_payment_info_def plain_row_def sample_columns_def float_4_5)

lemma plain_labels_are_strings: "list_all labels_are_strings plain_payment_list"
  by (simp add: plain_payment_list_def labels_are_strings_def plain_feedback_data)
    (simp add: plain_row_def sample_columns_def)

lemma numbered_cells_representable: "list_all cells_representable numbered_payment_list"
  by (simp add: numbered_payment_list_def cells_representable_def numbered_feedback_data)
    (simp add: payment_for_def make_payment_info_def plain_row_def numbered_columns_def float_4_5)

lemma numbered_not_string_keys: "\<not> string_keys (payment_list_value numbered_payment_list)"
  by (simp add: payment_list_value_def numbered_payment_list_def payment_dict_def
      numbered_feedback_data)
    (simp add: numbered_columns_def plain_row_def)

subsection \<open>The round trip\<close>

lemma payment_for_amount: "amount (payment_for w cols p) = 3"
  by (cases p) (simp add: payment_for_def make_payment_info_def)

lemma payment_for_distinct: "distinct (map fst (feedback_data (payment_for w cols p)))"
  by (cases p) (simp add: payment_for_def make_payment_info_def distinct_to_dict)

lemma cells_representable_dumpable:
  "cells_representable p \<Longrightarrow> labels_are_strings p \<Longrightarrow> dumpable p"
proof -
  assume c: "cells_representable p" and l: "labels_are_strings p"
  have "json_serializable k" if "is_string k" for k
    using that by (cases k) simp_all
  with c l show ?thesis
    by (auto simp: cells_representable_def labels_are_strings_def dumpable_def list_all_iff
        json_representable_serializable)
qed

lemma process_writes_file:
  assumes "process_questionnaire_responses df w = Inr (out, w')"
  shows "\<exists>name. map_of (files w') name = Some out"
proof (cases "\<forall>r \<in> set (rows df). 8 \<le> length r")
  case True
  from assms show ?thesis
    unfolding process_wide [OF True]
    by (auto simp: update_conv' split: if_splits)
next
  case False
  then have "\<exists>r \<in> set (rows df). length r < 8" by (simp add: not_le)
  then have "process_questionnaire_responses df w = Inl IndexError"
    by (rule process_narrow)
  with assms show ?thesis by simp
qed

lemma round_trip_of_records:
  assumes "\<forall>p \<in> set out. cells_representable p \<and> amount p = 3"
    and "list_all dumpable out"
  shows "json_dumps (payment_list_value out) = Inr (dumps_at 0 (payment_list_value out))"
    and "json_loads (dumps_at 0 (payment_list_value out)) = Some (decoded (payment_list_value out))"
proof -
  have enc: "encodable (payment_list_value out)"
    using assms(2) by (simp add: encodable_payment_list_value)
  then show "json_dumps (payment_list_value out) = Inr (dumps_at 0 (payment_list_value out))"
    by (simp add: json_dumps_def)
  have "floats_ok (payment_list_value out)"
    using assms(1) by (simp add: payment_list_value_def list_all_iff floats_ok_payment_dict)
  with enc show "json_loads (dumps_at 0 (payment_list_value out))
                   = Some (decoded (payment_list_value out))"
    by (rule json_loads_dumps)
qed

text \<open>
  Claim C8, as amended. When a run returns a list of records in which every cell is a
  string, an integer, a bool or a finite float and every column label is a string, the
  list is the one the run has put in its output file, json.dump writes it without an
  error, and parsing the text it writes gives the list back: the same records, with the
  same keys and values in the same order.
\<close>

theorem payment_list_json_round_trip:
  assumes "process_questionnaire_responses df w = Inr (out, w')"
    and "list_all cells_representable out"
    and "list_all labels_are_strings out"
  shows "(\<exists>name. map_of (files w') name = Some out) \<and>
         json_dumps (payment_list_value out) = Inr (dumps_at 0 (payment_list_value out)) \<and>
         json_loads (dumps_at 0 (payment_list_value out)) = Some (payment_list_value out)"
proof -
  have written: "\<exists>name. map_of (files w') name = Some out"
    using assms(1) by (rule process_writes_file)
  have out: "out = expected_payment_list df w"
    using assms(1) by (rule process_Inr)
  have built: "amount p = 3 \<and> distinct (map fst (feedback_data p))" if "p \<in> set out" for p
    using that unfolding out expected_payment_list_def
    by (auto simp: payment_for_amount payment_for_distinct)
  have rep: "\<forall>p \<in> set out. cells_representable p \<and> amount p = 3"
    using assms(2) built by (simp add: list_all_iff)
  have dump: "list_all dumpable out"
    using assms(2, 3) by (simp add: list_all_iff cells_representable_dumpable)
  have "decoded (payment_dict p) = payment_dict p" if "p \<in> set out" for p
    using that assms(3) built by (intro decoded_payment_dict) (simp_all add: list_all_iff)
  then have "decoded (payment_list_value out) = payment_list_value out"
    by (simp add: payment_list_value_def)
  with round_trip_of_records [OF rep dump] written show ?thesis by simp
qed

theorem payment_list_json_round_trip_witness:
  "map_sum id fst (process_questionnaire_responses plain_df sample_world) = Inr plain_payment_list \<and>
   json_dumps (payment_list_value plain_payment_list)
     = Inr (dumps_at 0 (payment_list_value plain_payment_list)) \<and>
   json_loads (dumps_at 0 (payment_list_value plain_payment_list))
     = Some (payment_list_value plain_payment_list)"
proof -
  from plain_df_run obtain w' where
    run: "process_questionnaire_responses plain_df sample_world = Inr (plain_payment_list, w')" ..
  from payment_list_json_round_trip [OF run plain_cells_representable plain_labels_are_strings]
  show ?thesis by (simp add: run)
qed

text \<open>
  Claim C8, as the specification states it, asks only that the cells be representable in
  JSON. It fails on a table whose header holds a number: the run returns a record whose
  cells are all representable, json.dump writes it, and the parsed text is not the record,
  because the label 1 has come back as the string \<open>1\<close>.
\<close>

theorem json_round_trip_counterexample:
  "map_sum id fst (process_questionnaire_responses numbered_df sample_world)
     = Inr numbered_payment_list \<and>
   list_all cells_representable numbered_payment_list \<and>
   json_dumps (payment_list_value numbered_payment_list)
     = Inr (dumps_at 0 (payment_list_value numbered_payment_list)) \<and>
   json_loads (dumps_at 0 (payment_list_value numbered_payment_list))
     \<noteq> Some (payment_list_value numbered_payment_list)"
proof -
  from numbered_df_run obtain w' where
    run: "process_questionnaire_responses numbered_df sample_world
            = Inr (numbered_payment_list, w')" ..
  have rep: "\<forall>p \<in> set numbered_payment_list. cells_representable p \<and> amount p = 3"
    using numbered_cells_representable
    by (simp add: numbered_payment_list_def payment_for_amount)
  have dump: "list_all dumpable numbered_payment_list"
  proof -
    have "process_questionnaire_responses numbered_df sample_world \<noteq> Inl TypeError"
      using run by simp
    moreover have "\<forall>r \<in> set (rows numbered_df). 8 \<le> length r"
      by (simp add: numbered_df_def plain_row_def)
    moreover have "expected_payment_list numbered_df sample_world = numbered_payment_list"
      using process_Inr [OF run] by simp
    ultimately show ?thesis
      using process_wide [of numbered_df sample_world] by (simp split: if_splits)
  qed
  note rt = round_trip_of_records [OF rep dump]
  have "decoded (payment_list_value numbered_payment_list)
          \<noteq> payment_list_value numbered_payment_list"
    using string_keys_decoded [of "payment_list_value numbered_payment_list"]
      numbered_not_string_keys by auto
  with rt numbered_cells_representable run show ?thesis by simp
qed

end
